theory Spec2Isabelle
  imports Main "HOL-Library.Word"
begin

section \<open>JavaScript strings\<close>

text \<open>
  A JavaScript string is a sequence of UTF-16 code units; \<open>length\<close>, \<open>substring\<close>,
  \<open>trim\<close>, \<open>split\<close> and the regular expressions of the source (none has the \<open>u\<close> flag)
  all work on code units. A string is therefore a list of code units, each a natural number.
\<close>

type_synonym jschar = nat
type_synonym jsstring = "nat list"

definition asc :: "string \<Rightarrow> jsstring" where
  "asc s = map of_char s"

text \<open>
  The class \<open>\s\<close> of a regular expression and the characters removed by \<open>trim\<close> are the
  same set: the WhiteSpace and LineTerminator code points of ECMAScript.
\<close>

definition is_ws :: "jschar \<Rightarrow> bool" where
  "is_ws c \<longleftrightarrow>
     c = 9 \<or> c = 10 \<or> c = 11 \<or> c = 12 \<or> c = 13 \<or> c = 32 \<or> c = 160 \<or> c = 5760 \<or>
     (8192 \<le> c \<and> c \<le> 8202) \<or> c = 8232 \<or> c = 8233 \<or> c = 8239 \<or> c = 8287 \<or>
     c = 12288 \<or> c = 65279"

definition trim :: "jsstring \<Rightarrow> jsstring" where
  "trim s = rev (dropWhile is_ws (rev (dropWhile is_ws s)))"

text \<open>\<open>s.substring(a, b)\<close>: both indices are clamped to the length and swapped when \<open>a > b\<close>.\<close>

definition substring :: "jsstring \<Rightarrow> nat \<Rightarrow> nat \<Rightarrow> jsstring" where
  "substring s a b =
     (let a' = min a (length s); b' = min b (length s)
      in take (max a' b' - min a' b') (drop (min a' b') s))"

definition nonempty :: "jsstring \<Rightarrow> bool" where
  "nonempty s \<longleftrightarrow> length s > 0"

text \<open>The text with every whitespace code unit removed: what is left when separators are ignored.\<close>

definition strip_ws :: "jsstring \<Rightarrow> jsstring" where
  "strip_ws s = filter (\<lambda>c. \<not> is_ws c) s"

section \<open>\<open>String.prototype.split\<close> with a regular expression\<close>

text \<open>
  \<open>s.split(re)\<close> walks the string with two indices, \<open>p\<close> (start of the current piece)
  and \<open>q\<close> (position tried next). At each \<open>q < size\<close> it tries to match \<open>re\<close> exactly at
  \<open>q\<close>; on failure \<open>q\<close> moves one unit on; on a match ending at \<open>e\<close>, if \<open>e = p\<close> the
  (empty) match is ignored and \<open>q\<close> moves on, otherwise the piece \<open>substring(p, q)\<close> is
  emitted and \<open>p = q = e\<close>. At the end the piece \<open>substring(p, size)\<close> is emitted.

  Both regular expressions of the source look at most one code unit behind \<open>q\<close>, so a
  matcher takes the code unit before \<open>q\<close> (if any) and the rest of the string from \<open>q\<close>,
  and returns the length of the match. The loop carries the piece \<open>substring(p, q)\<close>
  read so far instead of the index \<open>p\<close>: \<open>e = p\<close> holds exactly when the match is
  empty and the piece is empty.
\<close>

type_synonym matcher = "jschar option \<Rightarrow> jsstring \<Rightarrow> nat option"

function split_loop :: "matcher \<Rightarrow> jschar option \<Rightarrow> jsstring \<Rightarrow> jsstring \<Rightarrow> jsstring list" where
  "split_loop m prev piece [] = [piece]"
| "split_loop m prev piece (c # cs) =
     (case m prev (c # cs) of
        None \<Rightarrow> split_loop m (Some c) (piece @ [c]) cs
      | Some k \<Rightarrow>
          if k = 0
          then (if piece = [] then split_loop m (Some c) (piece @ [c]) cs
                else piece # split_loop m prev [] (c # cs))
          else piece # split_loop m (Some (last (take k (c # cs)))) [] (drop k (c # cs)))"
  by pat_completeness auto
termination
  by (relation "measure (\<lambda>(m, prev, piece, rest). 2 * length rest + (if piece = [] then 0 else 1))")
     (auto split: if_splits)

definition js_split :: "matcher \<Rightarrow> jsstring \<Rightarrow> jsstring list" where
  "js_split m s =
     (if s = [] then (if m None [] = None then [[]] else [])
      else split_loop m None [] s)"

text \<open>
  \<open>/\n\n+/\<close>: two line feeds, then as many more as follow (the quantifier is greedy and
  nothing comes after it, so there is no backtracking).
\<close>

definition para_match :: matcher where
  "para_match prev rest =
     (case rest of
        a # b # r \<Rightarrow>
          if a = 10 \<and> b = 10 then Some (2 + length (takeWhile (\<lambda>c. c = 10) r)) else None
      | _ \<Rightarrow> None)"

definition splitTextIntoParagraphs :: "jsstring \<Rightarrow> jsstring list" where
  "splitTextIntoParagraphs text =
     filter nonempty (map trim (js_split para_match text))"

text \<open>
  The sentence expression has two alternatives, tried in this order at each position:
  \<^item> \<open>(?<=[.?!])\s+(?=[A-Z...])\<close>: the unit before is a full stop, question mark or
    exclamation mark; one or more whitespace units; the next unit opens a sentence;
  \<^item> \<open>(?<=\n)\s*(?=[A-Z...])\<close>: the unit before is a line feed; zero or more whitespace
    units; the next unit opens a sentence.
  The units that open a sentence are \<open>A-Z\<close>, the Cyrillic capitals U+0410 to U+042F and
  U+0401, the digits, the quotation marks U+0022, U+201C, U+00AB, U+2018, U+201E, and
  the brackets \<open>[\<close> and \<open>(\<close>. A greedy quantifier takes the longest run first and gives
  units back one at a time until the lookahead holds: \<open>backtrack\<close>.
\<close>

definition sentence_end :: "jschar \<Rightarrow> bool" where
  "sentence_end c \<longleftrightarrow> c = 46 \<or> c = 63 \<or> c = 33"

definition sentence_start :: "jschar \<Rightarrow> bool" where
  "sentence_start c \<longleftrightarrow>
     (65 \<le> c \<and> c \<le> 90) \<or> (1040 \<le> c \<and> c \<le> 1071) \<or> c = 1025 \<or> (48 \<le> c \<and> c \<le> 57) \<or>
     c = 34 \<or> c = 8220 \<or> c = 171 \<or> c = 8216 \<or> c = 8222 \<or> c = 91 \<or> c = 40"

definition lookahead_start :: "jsstring \<Rightarrow> bool" where
  "lookahead_start r = (case r of [] \<Rightarrow> False | c # _ \<Rightarrow> sentence_start c)"

definition backtrack :: "jsstring \<Rightarrow> nat \<Rightarrow> nat option" where
  "backtrack rest lo =
     List.find (\<lambda>j. lookahead_start (drop j rest))
               (rev [lo ..< Suc (length (takeWhile is_ws rest))])"

definition sent_match :: matcher where
  "sent_match prev rest =
     (case (if (case prev of None \<Rightarrow> False | Some c \<Rightarrow> sentence_end c)
            then backtrack rest 1 else None) of
        Some k \<Rightarrow> Some k
      | None \<Rightarrow> (if prev = Some 10 then backtrack rest 0 else None))"


section \<open>TextSegmenter: \<open>forceSplitTextRecursive_SYNC\<close>\<close>

text \<open>
  The inner \<open>for\<close> loop of the character fallback: from \<open>i = splitPoint\<close> down to
  \<open>currentPos + 1\<close>, the first index whose code unit is whitespace. An index at or past
  the end reads \<open>undefined\<close>, which \<open>/\s/\<close> does not match.
\<close>

function find_space_back :: "jsstring \<Rightarrow> nat \<Rightarrow> nat \<Rightarrow> nat option" where
  "find_space_back text currentPos i =
     (if i > currentPos
      then (if i < length text \<and> is_ws (text ! i) then Some i
            else find_space_back text currentPos (i - 1))
      else None)"
  by pat_completeness auto
termination
  by (relation "measure (\<lambda>(text, currentPos, i). i)") auto

text \<open>The value of \<open>splitPoint\<close> at the end of one iteration of the \<open>while\<close> loop.\<close>

definition next_split_point :: "jsstring \<Rightarrow> nat \<Rightarrow> nat \<Rightarrow> nat" where
  "next_split_point text targetCharLength currentPos =
     (let splitPoint = min (currentPos + targetCharLength) (length text)
      in if splitPoint < length text
         then (case find_space_back text currentPos splitPoint of
                 Some i \<Rightarrow> i + 1
               | None \<Rightarrow>
                   if 2 * (splitPoint - currentPos) < targetCharLength
                      \<and> currentPos + targetCharLength < length text
                   then currentPos + targetCharLength
                   else splitPoint)
         else splitPoint)"

text \<open>
  The \<open>while (currentPos < text.length)\<close> loop. Nothing in the loop itself bounds the
  number of iterations (with a target of \<open>0\<close> the cursor never moves), so the loop is a
  partial function: \<open>None\<close> stands for a loop that does not end.
\<close>

partial_function (option) char_window_loop ::
  "jsstring \<Rightarrow> nat \<Rightarrow> nat \<Rightarrow> jsstring list \<Rightarrow> jsstring list option" where
  "char_window_loop text targetCharLength currentPos results =
     (if currentPos < length text
      then char_window_loop text targetCharLength
             (next_split_point text targetCharLength currentPos)
             (if trim (substring text currentPos (next_split_point text targetCharLength currentPos)) \<noteq> []
              then results @ [trim (substring text currentPos (next_split_point text targetCharLength currentPos))]
              else results)
      else Some results)"

declare char_window_loop.simps [code]

text \<open>
  The splitter. \<open>text.length <= targetCharLength * 1.5\<close> is \<open>2 * length \<le> 3 * target\<close> on
  integers. The recursive calls are made in order and their results appended; if one of
  them does not return, neither does the caller (\<open>those\<close>). The \<open>onProgress\<close> callback
  and the call identifier only feed log messages and are left out.
\<close>

function forceSplitTextRecursive_SYNC :: "jsstring \<Rightarrow> nat \<Rightarrow> nat \<Rightarrow> jsstring list option" where
  "forceSplitTextRecursive_SYNC text targetCharLength depth =
     (if trim text = [] then Some []
      else if depth > 15 then Some [text]
      else if 2 * length text \<le> 3 * targetCharLength \<and> depth > 0 then Some [text]
      else if length (js_split para_match text) > 1
      then map_option (\<lambda>rs. filter nonempty (concat rs))
             (those (map (\<lambda>para. forceSplitTextRecursive_SYNC para targetCharLength (depth + 1))
                         (filter nonempty (map trim (js_split para_match text)))))
      else if length (filter nonempty (map trim (js_split sent_match text))) > 1
      then map_option (\<lambda>rs. filter nonempty (concat rs))
             (those (map (\<lambda>sentence. forceSplitTextRecursive_SYNC sentence targetCharLength (depth + 1))
                         (filter nonempty (map trim (filter nonempty (map trim (js_split sent_match text)))))))
      else map_option (\<lambda>results. filter nonempty
                         (if length results = 0 \<and> length text > 0 then results @ [text] else results))
             (char_window_loop text targetCharLength 0 []))"
  by pat_completeness auto
termination
  by (relation "measure (\<lambda>(text, targetCharLength, depth). 16 - depth)") auto

section \<open>ChunkAggregator: \<open>aggregateParagraphsIntoChunks\<close>\<close>

definition blank_line :: jsstring where
  "blank_line = [10, 10]"

text \<open>
  One iteration of the \<open>for\<close> loop over the paragraphs. The state is the list \<open>chunks\<close>
  and the buffer \<open>currentChunk\<close>; the first branch is the one that ends in \<open>continue\<close>.
  The progress callbacks do not touch the state and are left out.
\<close>

definition agg_step :: "nat \<Rightarrow> jsstring list \<times> jsstring \<Rightarrow> jsstring \<Rightarrow> jsstring list \<times> jsstring" where
  "agg_step charTarget st paragraph =
     (case st of (chunks, currentChunk) \<Rightarrow>
        if length currentChunk = 0 \<and> length paragraph \<ge> charTarget
        then (chunks @ [paragraph], currentChunk)
        else
          let separator = (if length currentChunk > 0 then blank_line else [])
          in if length currentChunk + length separator + length paragraph > charTarget
                \<and> length currentChunk > 0
             then (chunks @ [currentChunk], paragraph)
             else (chunks, currentChunk @ separator @ paragraph))"

definition aggregateParagraphsIntoChunks :: "jsstring list \<Rightarrow> nat \<Rightarrow> jsstring list" where
  "aggregateParagraphsIntoChunks paragraphs charTarget =
     (if paragraphs = [] then []
      else
        (case foldl (agg_step charTarget) ([], []) paragraphs of
           (chunks, currentChunk) \<Rightarrow>
             if length currentChunk > 0 then chunks @ [currentChunk] else chunks))"

text \<open>
  The aggregator as the specification words it, for comparison with the code: a running
  buffer, paragraphs joined by a blank line; the buffer is flushed when it is non-empty and
  adding the next paragraph would make it exceed the target, and the paragraph starts the
  new buffer; a paragraph that meets an empty buffer and exceeds the target on its own is
  emitted at once; what remains in the buffer is flushed at the end.
\<close>

fun spec_aggregate :: "nat \<Rightarrow> jsstring \<Rightarrow> jsstring list \<Rightarrow> jsstring list" where
  "spec_aggregate charTarget buffer [] = (if buffer = [] then [] else [buffer])"
| "spec_aggregate charTarget buffer (p # ps) =
     (if buffer = []
      then (if length p > charTarget
            then p # spec_aggregate charTarget [] ps
            else spec_aggregate charTarget p ps)
      else if length (buffer @ blank_line @ p) > charTarget
           then buffer # spec_aggregate charTarget p ps
           else spec_aggregate charTarget (buffer @ blank_line @ p) ps)"

section \<open>SizeEstimator: the token-counting oracle and \<open>countTokensForText\<close>\<close>

text \<open>
  What a failed call throws: \<open>null\<close>, or a value with its \<open>toString()\<close> and, when it
  is an instance of \<open>Error\<close>, its \<open>message\<close>.
\<close>

datatype thrown = ThrownNull | Thrown (thrown_string: jsstring) (thrown_message: "jsstring option")

text \<open>
  \<open>ai.models.countTokens\<close> is a remote service: the answer to a request may depend on
  how many requests were made before. The oracle maps the number of earlier calls and the
  text sent to the token count returned (\<open>totalTokens\<close>, a natural number) or the value
  thrown. The state records the number of calls made and the delays waited
  (\<open>setTimeout\<close>), in milliseconds.
\<close>

type_synonym token_oracle = "nat \<Rightarrow> jsstring \<Rightarrow> thrown + nat"

record ostate =
  calls :: nat
  sleeps :: "nat list"

fun js_includes :: "jsstring \<Rightarrow> jsstring \<Rightarrow> bool" where
  "js_includes [] pat = (pat = [])"
| "js_includes (c # cs) pat = (take (length pat) (c # cs) = pat \<or> js_includes cs pat)"

text \<open>
  \<open>tokenError?.toString().includes('500') || tokenError?.toString().includes('Internal error')\<close>:
  the optional chain is \<open>undefined\<close>, hence false, for \<open>null\<close>.
\<close>

definition isServerError :: "thrown \<Rightarrow> bool" where
  "isServerError tokenError =
     (case tokenError of
        ThrownNull \<Rightarrow> False
      | Thrown str msg \<Rightarrow> js_includes str (asc ''500'') \<or> js_includes str (asc ''Internal error''))"

definition MAX_RETRIES :: nat where "MAX_RETRIES = 2"
definition RETRY_DELAY_MS :: nat where "RETRY_DELAY_MS = 1000"

definition fullTextToCount :: "jsstring \<Rightarrow> jsstring \<Rightarrow> jsstring" where
  "fullTextToCount voicePrompt textToCount =
     (if trim voicePrompt \<noteq> [] then trim voicePrompt @ asc '': '' @ textToCount else textToCount)"

text \<open>
  The \<open>for (attempt = 0; attempt <= MAX_RETRIES; attempt++)\<close> loop of
  \<open>countTokensForText\<close>, from a given \<open>attempt\<close>; \<open>lastError\<close> starts as \<open>null\<close>.
\<close>

function countTokens_loop ::
  "token_oracle \<Rightarrow> jsstring \<Rightarrow> jsstring \<Rightarrow> nat \<Rightarrow> thrown \<Rightarrow> ostate \<Rightarrow> (thrown + nat) \<times> ostate" where
  "countTokens_loop ai voicePrompt textToCount attempt lastError st =
     (if attempt \<le> MAX_RETRIES
      then
        (let st1 = (if attempt > 0 then st\<lparr>sleeps := sleeps st @ [RETRY_DELAY_MS * attempt]\<rparr> else st);
             st2 = st1\<lparr>calls := calls st1 + 1\<rparr>
         in case ai (calls st1) (fullTextToCount voicePrompt textToCount) of
              Inr totalTokens \<Rightarrow> (Inr totalTokens, st2)
            | Inl tokenError \<Rightarrow>
                if isServerError tokenError \<and> attempt < MAX_RETRIES
                then countTokens_loop ai voicePrompt textToCount (attempt + 1) tokenError st2
                else (Inl tokenError, st2))
      else (Inl lastError, st))"
  by pat_completeness auto
termination
  by (relation "measure (\<lambda>(ai, voicePrompt, textToCount, attempt, lastError, st). Suc MAX_RETRIES - attempt)")
     auto

definition countTokensForText :: "token_oracle \<Rightarrow> jsstring \<Rightarrow> jsstring \<Rightarrow> ostate \<Rightarrow> (thrown + nat) \<times> ostate" where
  "countTokensForText ai voicePrompt textToCount st =
     countTokens_loop ai voicePrompt textToCount 0 ThrownNull st"

section \<open>ChunkValidator: \<open>createAudiobookChunks\<close>\<close>

definition MAX_TTS_TOKENS :: nat where "MAX_TTS_TOKENS = 8000"
definition IDEAL_TOKENS_PER_CHUNK :: nat where "IDEAL_TOKENS_PER_CHUNK = 2000"
definition IDEAL_CHARS_PER_CHUNK_TARGET :: nat where "IDEAL_CHARS_PER_CHUNK_TARGET = 6000"
definition FINE_GRAINED_SPLIT_DIVISOR :: nat where "FINE_GRAINED_SPLIT_DIVISOR = 2"

text \<open>\<open>Math.floor(IDEAL_TOKENS_PER_CHUNK * IDEAL_CHUNK_SIZE_MULTIPLIER)\<close> with the multiplier \<open>1.5 = 3/2\<close>.\<close>

definition IDEAL_CHUNK_TOKEN_UPPER_BOUND :: nat where
  "IDEAL_CHUNK_TOKEN_UPPER_BOUND = (IDEAL_TOKENS_PER_CHUNK * 3) div 2"

definition FINE_GRAINED_RECURSIVE_CHAR_TARGET :: nat where
  "FINE_GRAINED_RECURSIVE_CHAR_TARGET = IDEAL_CHARS_PER_CHUNK_TARGET div FINE_GRAINED_SPLIT_DIVISOR"

datatype chunk_status = Pending | Generating | Success | Error

text \<open>
  \<open>AudiobookChunk\<close>. The optional fields are options. The field \<open>id\<close>, a random UUID
  that nothing in the pipeline reads, and the audio fields, filled in later by the
  caller, are left out.
\<close>

record AudiobookChunk =
  index :: nat
  chunkText :: jsstring
  chapterTitle :: "jsstring option"
  fileName :: jsstring
  status :: chunk_status
  tokenCount :: "nat option"
  errorDetails :: "jsstring option"

record ExtractedChapter =
  title :: "jsstring option"
  content :: jsstring

datatype chunk_input = Chapters "ExtractedChapter list" | Strings "jsstring list"

text \<open>\<open>String(n)\<close> for a natural number, and \<open>padStart(3, '0')\<close>.\<close>

fun nat_to_string :: "nat \<Rightarrow> jsstring" where
  "nat_to_string n = (if n < 10 then [48 + n] else nat_to_string (n div 10) @ [48 + n mod 10])"

definition padStart3 :: "jsstring \<Rightarrow> jsstring" where
  "padStart3 s = replicate (3 - length s) 48 @ s"

text \<open>
  \<open>transliteratedTitle.replace(/[^a-zA-Z0-9_-]/g, '_').substring(0, 50) || "AudiobookPart"\<close>.
  The function \<open>transliterate\<close> is imported from a module that is not part of the
  sources at hand: it is a parameter.
\<close>

definition file_name_char :: "jschar \<Rightarrow> bool" where
  "file_name_char c \<longleftrightarrow>
     (97 \<le> c \<and> c \<le> 122) \<or> (65 \<le> c \<and> c \<le> 90) \<or> (48 \<le> c \<and> c \<le> 57) \<or> c = 95 \<or> c = 45"

definition sanitizedFileNameBase :: "(jsstring \<Rightarrow> jsstring) \<Rightarrow> jsstring \<Rightarrow> jsstring" where
  "sanitizedFileNameBase transliterate mainTitleForChunks =
     (let s = substring (map (\<lambda>c. if file_name_char c then c else 95)
                             (transliterate mainTitleForChunks)) 0 50
      in if s = [] then asc ''AudiobookPart'' else s)"

text \<open>
  \<open>`${sanitizedFileNameBase}_Part_${String(chunkIndex).padStart(3, '0')}...wav`\<close>. In each
  object literal the property \<open>index: chunkIndex++\<close> comes before \<open>fileName\<close>, so the
  file name is built from the counter after the increment.
\<close>

definition part_file_name :: "jsstring \<Rightarrow> nat \<Rightarrow> jsstring \<Rightarrow> jsstring" where
  "part_file_name base chunkIndex suffix =
     base @ asc ''_Part_'' @ padStart3 (nat_to_string chunkIndex) @ suffix @ asc ''.wav''"

text \<open>\<open>error instanceof Error ? error.message : String(error)\<close>\<close>

definition error_text :: "thrown \<Rightarrow> jsstring" where
  "error_text e =
     (case e of
        ThrownNull \<Rightarrow> asc ''null''
      | Thrown str None \<Rightarrow> str
      | Thrown str (Some msg) \<Rightarrow> msg)"

record vstate =
  finalAudiobookChunks :: "AudiobookChunk list"
  chunkIndex :: nat
  ost :: ostate

text \<open>The four object literals pushed by the loop, each with \<open>index: chunkIndex++\<close>.\<close>

definition push_chunk ::
  "jsstring \<Rightarrow> jsstring \<Rightarrow> jsstring \<Rightarrow> jsstring \<Rightarrow> chunk_status \<Rightarrow> nat option \<Rightarrow> jsstring option
     \<Rightarrow> vstate \<Rightarrow> vstate" where
  "push_chunk mainTitleForChunks base txt suffix st tc details s =
     s\<lparr>finalAudiobookChunks := finalAudiobookChunks s @
          [\<lparr>index = chunkIndex s, chunkText = txt, chapterTitle = Some mainTitleForChunks,
            fileName = part_file_name base (chunkIndex s + 1) suffix,
            status = st, tokenCount = tc, errorDetails = details\<rparr>],
       chunkIndex := chunkIndex s + 1\<rparr>"

definition error_snippet :: "jsstring \<Rightarrow> jsstring" where
  "error_snippet t = asc ''Error: Token counting failed. Snippet: '' @ substring t 0 100 @ asc ''...''"

text \<open>One iteration of the inner loop over the sub-segments of a candidate that was split again.\<close>

definition process_subsegment ::
  "token_oracle \<Rightarrow> jsstring \<Rightarrow> jsstring \<Rightarrow> jsstring \<Rightarrow> vstate \<Rightarrow> jsstring \<Rightarrow> vstate" where
  "process_subsegment ai voicePrompt mainTitleForChunks base s subSegmentText =
     (if trim subSegmentText = [] then s
      else
        (case countTokensForText ai voicePrompt subSegmentText (ost s) of
           (Inl subError, o') \<Rightarrow>
              push_chunk mainTitleForChunks base (error_snippet subSegmentText) (asc ''_SUB_TOKEN_ERR'')
                Error None
                (Some (asc ''Token counting failed for this re-split sub-segment: '' @ error_text subError))
                (s\<lparr>ost := o'\<rparr>)
         | (Inr subTokenCount, o') \<Rightarrow>
              if subTokenCount \<le> MAX_TTS_TOKENS
              then push_chunk mainTitleForChunks base subSegmentText [] Pending (Some subTokenCount) None
                     (s\<lparr>ost := o'\<rparr>)
              else push_chunk mainTitleForChunks base subSegmentText (asc ''_OVERSIZED'') Pending
                     (Some subTokenCount) None (s\<lparr>ost := o'\<rparr>)))"

text \<open>
  One iteration of the loop over the candidates. The result is \<open>None\<close> when the
  splitter does not return.
\<close>

definition process_candidate ::
  "token_oracle \<Rightarrow> jsstring \<Rightarrow> jsstring \<Rightarrow> jsstring \<Rightarrow> vstate \<Rightarrow> jsstring \<Rightarrow> vstate option" where
  "process_candidate ai voicePrompt mainTitleForChunks base s candidateText =
     (case countTokensForText ai voicePrompt candidateText (ost s) of
        (Inl error, o') \<Rightarrow>
           Some (push_chunk mainTitleForChunks base (error_snippet candidateText) (asc ''_TOKEN_ERR'')
                   Error None
                   (Some (asc ''Token counting failed for this candidate chunk: '' @ error_text error))
                   (s\<lparr>ost := o'\<rparr>))
      | (Inr tokens, o') \<Rightarrow>
           if tokens \<le> IDEAL_CHUNK_TOKEN_UPPER_BOUND
           then Some (push_chunk mainTitleForChunks base candidateText [] Pending (Some tokens) None
                        (s\<lparr>ost := o'\<rparr>))
           else
             (case forceSplitTextRecursive_SYNC candidateText FINE_GRAINED_RECURSIVE_CHAR_TARGET 0 of
                None \<Rightarrow> None
              | Some subSegmentsToValidate \<Rightarrow>
                  Some (foldl (process_subsegment ai voicePrompt mainTitleForChunks base)
                              (s\<lparr>ost := o'\<rparr>) subSegmentsToValidate)))"

fun process_candidates ::
  "token_oracle \<Rightarrow> jsstring \<Rightarrow> jsstring \<Rightarrow> jsstring \<Rightarrow> vstate \<Rightarrow> jsstring list \<Rightarrow> vstate option" where
  "process_candidates ai voicePrompt mainTitleForChunks base s [] = Some s"
| "process_candidates ai voicePrompt mainTitleForChunks base s (candidateText # rest) =
     (case process_candidate ai voicePrompt mainTitleForChunks base s candidateText of
        None \<Rightarrow> None
      | Some s' \<Rightarrow> process_candidates ai voicePrompt mainTitleForChunks base s' rest)"

text \<open>\<open>a || b\<close> on strings: \<open>b\<close> when \<open>a\<close> is empty.\<close>

definition or_else :: "jsstring \<Rightarrow> jsstring \<Rightarrow> jsstring" where
  "or_else a b = (if a = [] then b else a)"

definition join_blank :: "jsstring list \<Rightarrow> jsstring" where
  "join_blank xs = (case xs of [] \<Rightarrow> [] | x # r \<Rightarrow> foldl (\<lambda>acc y. acc @ blank_line @ y) x r)"

text \<open>
  The text and the title taken from the input: the content and title of the first
  chapter, or the strings joined by blank lines; \<open>None\<close> for an empty array.
\<close>

definition input_text_and_title :: "chunk_input \<Rightarrow> jsstring \<Rightarrow> (jsstring \<times> jsstring) option" where
  "input_text_and_title input bookFileNameBase =
     (case input of
        Chapters (c # cs) \<Rightarrow>
          Some (content c,
                or_else (case title c of None \<Rightarrow> [] | Some t \<Rightarrow> t)
                        (or_else bookFileNameBase (asc ''BookContent'')))
      | Strings (x # xs) \<Rightarrow> Some (join_blank (x # xs), or_else bookFileNameBase (asc ''PastedText''))
      | _ \<Rightarrow> None)"

definition aggregate_error_chunk :: "jsstring \<Rightarrow> AudiobookChunk" where
  "aggregate_error_chunk bookFileNameBase =
     \<lparr>index = 0, chunkText = asc ''Error: Could not aggregate paragraphs into chunks.'',
      chapterTitle = None,
      fileName = bookFileNameBase @ asc ''_Part_001_AGGREGATE_ERR.wav'',
      status = Error, tokenCount = None,
      errorDetails = Some (asc ''Paragraph aggregation yielded no segments from non-empty input.'')\<rparr>"

definition not_initialized :: thrown where
  "not_initialized =
     Thrown (asc ''Error: Gemini API not initialized for token counting and chunking.'')
            (Some (asc ''Gemini API not initialized for token counting and chunking.''))"

text \<open>
  \<open>createAudiobookChunks\<close>. The client \<open>ai\<close> may be \<open>null\<close>. The result is the value
  thrown or the list of chunks returned, with the final state of the oracle; \<open>None\<close> when
  the function does not return. The arguments \<open>bookFileNameBase\<close> and \<open>voicePrompt\<close> are
  given explicitly (the source has the defaults \<open>"Audiobook"\<close> and \<open>""\<close>); the
  \<open>onProgress\<close> callback and the console output do not influence the result and are left
  out.
\<close>

definition createAudiobookChunks ::
  "(jsstring \<Rightarrow> jsstring) \<Rightarrow> chunk_input \<Rightarrow> token_oracle option \<Rightarrow> jsstring \<Rightarrow> jsstring
     \<Rightarrow> ((thrown + AudiobookChunk list) \<times> ostate) option" where
  "createAudiobookChunks transliterate input ai bookFileNameBase voicePrompt =
     (let o0 = \<lparr>calls = 0, sleeps = []\<rparr> in
      case ai of
        None \<Rightarrow> Some (Inl not_initialized, o0)
      | Some client \<Rightarrow>
          (case input_text_and_title input bookFileNameBase of
             None \<Rightarrow> Some (Inr [], o0)
           | Some (rawText, mainTitleForChunks) \<Rightarrow>
               let fullTextContent = trim rawText in
               if fullTextContent = [] then Some (Inr [], o0)
               else
                 let allParagraphs = splitTextIntoParagraphs fullTextContent;
                     candidateChunkTexts =
                       aggregateParagraphsIntoChunks allParagraphs IDEAL_CHARS_PER_CHUNK_TARGET
                 in if length candidateChunkTexts = 0 \<and> length fullTextContent > 0
                    then Some (Inr [aggregate_error_chunk bookFileNameBase], o0)
                    else
                      (case process_candidates client voicePrompt mainTitleForChunks
                              (sanitizedFileNameBase transliterate mainTitleForChunks)
                              \<lparr>finalAudiobookChunks = [], chunkIndex = 0, ost = o0\<rparr>
                              candidateChunkTexts of
                         None \<Rightarrow> None
                       | Some s \<Rightarrow> Some (Inr (finalAudiobookChunks s), ost s))))"

section \<open>ContainerEncoder: \<open>createWavBlobFromPcm\<close>\<close>

type_synonym byte = "8 word"

text \<open>\<open>dataView.getInt16(offset, true)\<close>: two bytes, little-endian, read as a signed 16-bit integer.\<close>

definition getInt16_le :: "byte list \<Rightarrow> nat \<Rightarrow> int" where
  "getInt16_le bytes off = sint (word_cat (bytes ! (off + 1)) (bytes ! off) :: 16 word)"

definition SILENCE_THRESHOLD :: int where "SILENCE_THRESHOLD = 5"
definition MIN_SILENCE_DURATION_MS :: nat where "MIN_SILENCE_DURATION_MS = 2000"
definition PADDING_DURATION_MS :: nat where "PADDING_DURATION_MS = 500"
definition BYTES_PER_SAMPLE :: nat where "BYTES_PER_SAMPLE = 2"

text \<open>
  The backward scan \<open>for (i = samples - 1; i >= 0; i--)\<close>, where
  \<open>samples = pcmDataBytes.length / 2\<close> is not rounded: for an odd number of bytes \<open>i\<close>
  runs over half-integers. The scan is therefore written on the byte offset
  \<open>i * BYTES_PER_SAMPLE\<close>, which is always a natural number: with \<open>r\<close> the length
  modulo 2, the offsets visited are \<open>r + 2 * (n - 1), ..., r + 2, r\<close> for \<open>n\<close> the length
  divided by 2. The result is the offset of \<open>lastNonSilentSample\<close>, or \<open>None\<close> for \<open>-1\<close>.
\<close>

fun scan_back :: "byte list \<Rightarrow> nat \<Rightarrow> nat \<Rightarrow> nat option" where
  "scan_back bytes r 0 = None"
| "scan_back bytes r (Suc n) =
     (if \<bar>getInt16_le bytes (r + BYTES_PER_SAMPLE * n)\<bar> > SILENCE_THRESHOLD
      then Some (r + BYTES_PER_SAMPLE * n)
      else scan_back bytes r n)"

definition lastNonSilentOffset :: "byte list \<Rightarrow> nat option" where
  "lastNonSilentOffset bytes =
     scan_back bytes (length bytes mod BYTES_PER_SAMPLE) (length bytes div BYTES_PER_SAMPLE)"

text \<open>
  The trimming block, in byte units. With \<open>off\<close> the offset of the last non-silent sample,
  \<open>samples - lastNonSilentSample > minSilenceSamples\<close> is
  \<open>length - off > 2 * (MIN_SILENCE_DURATION_MS / 1000) * sampleRate\<close>, and
  \<open>newByteLength = min(samples, lastNonSilentSample + paddingSamples) * 2\<close> is
  \<open>min(length, off + 2 * paddingSamples)\<close> with
  \<open>paddingSamples = floor((PADDING_DURATION_MS / 1000) * sampleRate)\<close>.
\<close>

definition trim_trailing_silence :: "byte list \<Rightarrow> nat \<Rightarrow> byte list" where
  "trim_trailing_silence pcmDataBytes sampleRate =
     (case lastNonSilentOffset pcmDataBytes of
        None \<Rightarrow> pcmDataBytes
      | Some off \<Rightarrow>
          if 1000 * (length pcmDataBytes - off) > BYTES_PER_SAMPLE * MIN_SILENCE_DURATION_MS * sampleRate
          then
            (let paddingSamples = (PADDING_DURATION_MS * sampleRate) div 1000;
                 newByteLength = min (length pcmDataBytes) (off + BYTES_PER_SAMPLE * paddingSamples)
             in take newByteLength pcmDataBytes)
          else pcmDataBytes)"

text \<open>\<open>setUint16\<close> and \<open>setUint32\<close> with \<open>littleEndian = true\<close>; the value is reduced modulo the width.\<close>

definition le16 :: "nat \<Rightarrow> byte list" where
  "le16 n = [of_nat n, of_nat (n div 256)]"

definition le32 :: "nat \<Rightarrow> byte list" where
  "le32 n = [of_nat n, of_nat (n div 256), of_nat (n div 65536), of_nat (n div 16777216)]"

definition writeString :: "string \<Rightarrow> byte list" where
  "writeString s = map of_char s"

definition headerSize :: nat where "headerSize = 44"

definition wav_header :: "nat \<Rightarrow> nat \<Rightarrow> nat \<Rightarrow> nat \<Rightarrow> byte list" where
  "wav_header sampleRate channels bitDepth dataSize =
     (let bytesPerSample = bitDepth div 8;
          blockAlign = channels * bytesPerSample;
          byteRate = sampleRate * blockAlign
      in writeString ''RIFF'' @ le32 (headerSize + dataSize - 8) @ writeString ''WAVE'' @
         writeString ''fmt '' @ le32 16 @ le16 1 @ le16 channels @ le32 sampleRate @
         le32 byteRate @ le16 blockAlign @ le16 bitDepth @
         writeString ''data'' @ le32 dataSize)"

text \<open>
  The result of \<open>createWavBlobFromPcm\<close>: the bytes of the blob. The model covers whole
  bytes per sample and at least one channel (\<open>bitDepth\<close> a positive multiple of 8,
  \<open>channels > 0\<close>), where \<open>bitDepth / 8\<close> and the block alignment are positive integers;
  outside, the source computes with fractions or \<open>NaN\<close> and the result is \<open>Unmodelled\<close>.
\<close>

datatype wav_result = Blob "byte list" | Unmodelled

text \<open>
  \<open>atob\<close> is a function of the platform: a parameter, \<open>None\<close> when it throws. Each code
  unit of the decoded string is stored in a \<open>Uint8Array\<close>, that is, modulo 256.
\<close>

definition createWavBlobFromPcm ::
  "(jsstring \<Rightarrow> jsstring option) \<Rightarrow> jsstring \<Rightarrow> nat \<Rightarrow> nat \<Rightarrow> nat \<Rightarrow> wav_result" where
  "createWavBlobFromPcm atob base64PcmData sampleRate channels bitDepth =
     (if base64PcmData = [] \<or> trim base64PcmData = [] then Blob []
      else
        (case atob base64PcmData of
           None \<Rightarrow> Blob []
         | Some byteCharacters \<Rightarrow>
             if bitDepth mod 8 \<noteq> 0 \<or> bitDepth = 0 \<or> channels = 0 then Unmodelled
             else
               let decoded = map of_nat byteCharacters;
                   pcmDataBytes =
                     (if bitDepth = 16 \<and> length decoded > 0
                      then trim_trailing_silence decoded sampleRate else decoded);
                   blockAlign = channels * (bitDepth div 8);
                   dataSize =
                     (if length pcmDataBytes mod blockAlign \<noteq> 0
                      then (length pcmDataBytes div blockAlign) * blockAlign
                      else length pcmDataBytes)
               in Blob (wav_header sampleRate channels bitDepth dataSize @ take dataSize pcmDataBytes)))"

text \<open>The data section of a blob and the number of 16-bit samples in it.\<close>

definition wav_data :: "wav_result \<Rightarrow> byte list" where
  "wav_data r = (case r of Blob bs \<Rightarrow> drop headerSize bs | Unmodelled \<Rightarrow> [])"

definition wav_sample_count :: "wav_result \<Rightarrow> nat" where
  "wav_sample_count r = length (wav_data r) div BYTES_PER_SAMPLE"

section \<open>Auxiliary definitions of the statements and proofs\<close>

text \<open>The sample of index \<open>j\<close> of a buffer of 16-bit samples.\<close>

definition sample_at :: "byte list \<Rightarrow> nat \<Rightarrow> int" where
  "sample_at bytes j = getInt16_le bytes (2 * j)"

text \<open>
  A concrete buffer for the silence scenario: 120000 samples of value 1000, then 72000
  samples of value 0, and an \<open>atob\<close> that decodes to it.
\<close>

definition scenario_pcm :: jsstring where
  "scenario_pcm = concat (replicate 120000 [232, 3]) @ replicate 144000 0"

definition scenario_atob :: "jsstring \<Rightarrow> jsstring option" where
  "scenario_atob s = Some scenario_pcm"

text \<open>The loop of the aggregator, unfolded from a given state: what is still to be emitted.\<close>

fun agg_rest :: "nat \<Rightarrow> jsstring \<Rightarrow> jsstring list \<Rightarrow> jsstring list" where
  "agg_rest T buf [] = (if length buf > 0 then [buf] else [])"
| "agg_rest T buf (p # ps) =
     (case agg_step T ([], buf) p of (out, buf') \<Rightarrow> out @ agg_rest T buf' ps)"

text \<open>Oracles and errors for concrete runs.\<close>

definition server_error :: thrown where
  "server_error = Thrown (asc ''Error: 500 Internal error'') (Some (asc ''500 Internal error''))"

definition denied_error :: thrown where
  "denied_error = Thrown (asc ''Error: denied'') (Some (asc ''denied''))"

definition flaky_oracle :: token_oracle where
  "flaky_oracle k t = (if k < 2 then Inl server_error else Inr 10)"

definition down_oracle :: token_oracle where
  "down_oracle k t = Inl server_error"

definition denying_oracle :: token_oracle where
  "denying_oracle k t = Inl denied_error"

definition state0 :: vstate where
  "state0 = \<lparr>finalAudiobookChunks = [], chunkIndex = 0, ost = \<lparr>calls = 0, sleeps = []\<rparr>\<rparr>"

text \<open>A matcher that only ever matches whitespace.\<close>

definition ws_matcher :: "matcher \<Rightarrow> bool" where
  "ws_matcher m \<longleftrightarrow> (\<forall>prev rest k. m prev rest = Some k \<longrightarrow> (\<forall>c \<in> set (take k rest). is_ws c))"

text \<open>The test of the caller for a chunk flagged oversized: \<open>fileName.endsWith('_OVERSIZED.wav')\<close>.\<close>

definition ends_with :: "jsstring \<Rightarrow> jsstring \<Rightarrow> bool" where
  "ends_with s suf \<longleftrightarrow> length suf \<le> length s \<and> drop (length s - length suf) s = suf"

definition is_oversized :: "AudiobookChunk \<Rightarrow> bool" where
  "is_oversized c \<longleftrightarrow> ends_with (fileName c) (asc ''_OVERSIZED.wav'')"

text \<open>The chunks that the validation loop can push, for a given title and file name base.\<close>

definition produced_chunk :: "jsstring \<Rightarrow> jsstring \<Rightarrow> AudiobookChunk \<Rightarrow> bool" where
  "produced_chunk ttl base c \<longleftrightarrow>
     chapterTitle c = Some ttl \<and>
     ((status c = Error \<and> tokenCount c = None \<and>
         (fileName c = part_file_name base (index c + 1) (asc ''_TOKEN_ERR'') \<or>
          fileName c = part_file_name base (index c + 1) (asc ''_SUB_TOKEN_ERR''))) \<or>
      (status c = Pending \<and> errorDetails c = None \<and>
         (\<exists>n. tokenCount c = Some n \<and> n \<le> MAX_TTS_TOKENS) \<and>
         fileName c = part_file_name base (index c + 1) []) \<or>
      (status c = Pending \<and> errorDetails c = None \<and>
         (\<exists>n. tokenCount c = Some n \<and> MAX_TTS_TOKENS < n) \<and>
         fileName c = part_file_name base (index c + 1) (asc ''_OVERSIZED'')))"

definition validator_inv :: "jsstring \<Rightarrow> jsstring \<Rightarrow> vstate \<Rightarrow> bool" where
  "validator_inv ttl base s \<longleftrightarrow>
     list_all (produced_chunk ttl base) (finalAudiobookChunks s) \<and>
     map index (finalAudiobookChunks s) = [0 ..< chunkIndex s]"

text \<open>The bound as claimed for every chunk that is neither in error nor flagged oversized.\<close>

definition bound_respected :: "AudiobookChunk \<Rightarrow> bool" where
  "bound_respected c \<longleftrightarrow>
     (status c \<noteq> Error \<and> \<not> is_oversized c \<longrightarrow>
      (case tokenCount c of None \<Rightarrow> False | Some n \<Rightarrow> n \<le> IDEAL_CHUNK_TOKEN_UPPER_BOUND))"

definition big_oracle :: token_oracle where
  "big_oracle k t = Inr 5000"

definition small_oracle :: token_oracle where
  "small_oracle k t = Inr 10"

definition no_transliteration :: "jsstring \<Rightarrow> jsstring" where
  "no_transliteration s = s"

text \<open>
  The file name convention: base, \<open>_Part_\<close>, a number padded as the code pads it, one
  of the four suffixes, \<open>.wav\<close>.
\<close>

definition chunk_suffixes :: "jsstring list" where
  "chunk_suffixes = [[], asc ''_OVERSIZED'', asc ''_TOKEN_ERR'', asc ''_SUB_TOKEN_ERR'']"

definition named_by :: "jsstring \<Rightarrow> nat \<Rightarrow> jsstring \<Rightarrow> bool" where
  "named_by base number name \<longleftrightarrow> name \<in> set (map (part_file_name base number) chunk_suffixes)"

text \<open>
  Coverage of a text by a list of chunks: the texts of the chunks, joined in order, and
  the text are equal once every whitespace code unit is removed from both.
\<close>

definition covers :: "AudiobookChunk list \<Rightarrow> jsstring \<Rightarrow> bool" where
  "covers chunks str \<longleftrightarrow> strip_ws (concat (map chunkText chunks)) = strip_ws str"

definition no_error :: "AudiobookChunk list \<Rightarrow> bool" where
  "no_error chunks \<longleftrightarrow> list_all (\<lambda>c. status c \<noteq> Error) chunks"

text \<open>
  The paragraphs that \<open>splitTextIntoParagraphs\<close> produces: not empty, with a first and a
  last code unit that are not whitespace, and without two line feeds in a row.
\<close>

fun has_blank_line :: "jsstring \<Rightarrow> bool" where
  "has_blank_line (a # b # r) \<longleftrightarrow> (a = 10 \<and> b = 10) \<or> has_blank_line (b # r)"
| "has_blank_line [a] \<longleftrightarrow> False"
| "has_blank_line [] \<longleftrightarrow> False"

definition trimmed :: "jsstring \<Rightarrow> bool" where
  "trimmed s \<longleftrightarrow> s \<noteq> [] \<and> \<not> is_ws (hd s) \<and> \<not> is_ws (last s)"

definition clean_paragraph :: "jsstring \<Rightarrow> bool" where
  "clean_paragraph p \<longleftrightarrow> trimmed p \<and> \<not> has_blank_line p"

text \<open>The output chunks of the aggregator split back into paragraphs.\<close>

definition resplit :: "jsstring list \<Rightarrow> jsstring list" where
  "resplit chunks = concat (map splitTextIntoParagraphs chunks)"

text \<open>Two more oracles: a server error and then an answer, a server error and then a refusal.\<close>

definition recovering_oracle :: token_oracle where
  "recovering_oracle k t = (if k < 1 then Inl server_error else Inr 10)"

definition failing_then_denying_oracle :: token_oracle where
  "failing_then_denying_oracle k t = (if k < 1 then Inl server_error else Inl denied_error)"

text \<open>The answer of the oracle to the request number \<open>k + 1\<close> of one call of \<open>countTokensForText\<close>.\<close>

definition answer :: "token_oracle \<Rightarrow> jsstring \<Rightarrow> jsstring \<Rightarrow> ostate \<Rightarrow> nat \<Rightarrow> thrown + nat" where
  "answer ai voicePrompt textToCount st k = ai (calls st + k) (fullTextToCount voicePrompt textToCount)"

text \<open>
  Coverage of a text by fragments up to separators: \<open>sep_cover s fs\<close> holds when \<open>s\<close> is the
  fragments \<open>fs\<close>, in their order, with nothing but whitespace before, between and after
  them, each fragment holding a code unit that is not whitespace. The place of a fragment
  in \<open>s\<close> is fixed by its first unit that is not whitespace, which is the first such unit
  of what is left of \<open>s\<close>.
\<close>

fun sep_cover :: "jsstring \<Rightarrow> jsstring list \<Rightarrow> bool" where
  "sep_cover s [] = list_all is_ws s"
| "sep_cover s (f # fs) =
     (let j = length (takeWhile is_ws f); n = length (takeWhile is_ws s)
      in j < length f \<and> j \<le> n \<and> take (length f) (drop (n - j) s) = f \<and>
         sep_cover (drop (n - j + length f) s) fs)"

text \<open>
  Whitespace normalized: every maximal run of whitespace code units replaced by one space.
\<close>

function collapse_ws :: "jsstring \<Rightarrow> jsstring" where
  "collapse_ws [] = []"
| "collapse_ws (c # cs) =
     (if is_ws c then 32 # collapse_ws (dropWhile is_ws cs) else c # collapse_ws cs)"
  by pat_completeness auto
termination
  by (relation "measure length") (auto simp: length_dropWhile_le less_Suc_eq_le)

text \<open>
  Two normalized texts put one after the other, with a space between them when neither is
  empty; the normal form of a text without the whitespace at its ends.
\<close>

definition glue :: "jsstring \<Rightarrow> jsstring \<Rightarrow> jsstring" where
  "glue a b = (if a = [] then b else if b = [] then a else a @ 32 # b)"

definition glue_all :: "jsstring list \<Rightarrow> jsstring" where
  "glue_all xs = foldr glue xs []"

definition normal_form :: "jsstring \<Rightarrow> jsstring" where
  "normal_form s = collapse_ws (trim s)"

text \<open>
  A chunk stands for a segment of the text: the segment is its text, or, for a chunk in
  error status, the error message is made from the segment, and the oracle has refused a
  count of the segment.
\<close>

definition chunk_stands_for :: "token_oracle \<Rightarrow> jsstring \<Rightarrow> AudiobookChunk \<Rightarrow> jsstring \<Rightarrow> bool" where
  "chunk_stands_for ai voicePrompt c seg \<longleftrightarrow>
     (if status c = Error
      then chunkText c = error_snippet seg \<and> (\<exists>k e. ai k (fullTextToCount voicePrompt seg) = Inl e)
      else chunkText c = seg)"

text \<open>
  Coverage of a text by segments, whitespace normalized: once every run of whitespace is
  replaced by one space in the text and in the segments, the text is the segments, in
  order, with nothing but whitespace before, between and after them.
\<close>

definition covers_text :: "jsstring \<Rightarrow> jsstring list \<Rightarrow> bool" where
  "covers_text raw segs \<longleftrightarrow> sep_cover (collapse_ws raw) (map collapse_ws segs)"

declare forceSplitTextRecursive_SYNC.simps [simp del]
declare split_loop.simps [simp del]
declare find_space_back.simps [simp del]
declare countTokens_loop.simps [simp del]
declare nat_to_string.simps [simp del]

section \<open>Properties of the aggregator\<close>

lemma agg_step_empty:
  "agg_step T (chunks, []) p = (if T \<le> length p then (chunks @ [p], []) else (chunks, p))"
  by (simp add: agg_step_def)

lemma agg_step_nonempty:
  "buf \<noteq> [] \<Longrightarrow> agg_step T (chunks, buf) p =
     (if length buf + 2 + length p > T then (chunks @ [buf], p)
      else (chunks, buf @ blank_line @ p))"
  by (simp add: agg_step_def blank_line_def)

lemma agg_step_chunks:
  "agg_step T (chunks, buf) p = (chunks @ fst (agg_step T ([], buf) p), snd (agg_step T ([], buf) p))"
proof (cases "buf = []")
  case True
  then show ?thesis by (simp add: agg_step_empty)
next
  case False
  then show ?thesis by (simp add: agg_step_nonempty)
qed

lemma foldl_agg_step:
  "(case foldl (agg_step T) (chunks, buf) ps of
      (cs, b) \<Rightarrow> if length b > 0 then cs @ [b] else cs) = chunks @ agg_rest T buf ps"
proof (induction ps arbitrary: chunks buf)
  case Nil
  show ?case by simp
next
  case (Cons p ps)
  obtain out buf' where st: "agg_step T ([], buf) p = (out, buf')"
    by (cases "agg_step T ([], buf) p")
  have st': "agg_step T (chunks, buf) p = (chunks @ out, buf')"
    using agg_step_chunks [of T chunks buf p] by (simp only: st fst_conv snd_conv)
  have l: "foldl (agg_step T) (chunks, buf) (p # ps) = foldl (agg_step T) (chunks @ out, buf') ps"
    by (simp only: foldl_Cons st')
  have r: "agg_rest T buf (p # ps) = out @ agg_rest T buf' ps"
    by (simp only: agg_rest.simps st prod.case)
  show ?case
    unfolding l r using Cons.IH [of "chunks @ out" buf'] by simp
qed

lemma aggregate_agg_rest: "aggregateParagraphsIntoChunks ps T = agg_rest T [] ps"
proof (cases "ps = []")
  case True
  then show ?thesis by (simp add: aggregateParagraphsIntoChunks_def)
next
  case False
  have "aggregateParagraphsIntoChunks ps T =
        (case foldl (agg_step T) ([], []) ps of
           (cs, b) \<Rightarrow> if length b > 0 then cs @ [b] else cs)"
    using False by (simp only: aggregateParagraphsIntoChunks_def if_False)
  also have "\<dots> = [] @ agg_rest T [] ps"
    by (rule foldl_agg_step)
  finally show ?thesis by simp
qed

lemma agg_rest_Cons_empty:
  "agg_rest T [] (p # ps) = (if T \<le> length p then p # agg_rest T [] ps else agg_rest T p ps)"
  by (simp add: agg_step_empty)

lemma agg_rest_Cons_nonempty:
  "buf \<noteq> [] \<Longrightarrow> agg_rest T buf (p # ps) =
     (if length buf + 2 + length p > T then buf # agg_rest T p ps
      else agg_rest T (buf @ blank_line @ p) ps)"
  by (simp add: agg_step_nonempty)

declare agg_rest.simps(2) [simp del]

lemma agg_rest_full_buffer:
  "0 < T \<Longrightarrow> T \<le> length buf \<Longrightarrow> agg_rest T buf ps = buf # agg_rest T [] ps"
proof (induction ps arbitrary: buf)
  case Nil
  then show ?case by auto
next
  case (Cons p ps)
  have b: "buf \<noteq> []" using Cons.prems by auto
  have l: "agg_rest T buf (p # ps) = buf # agg_rest T p ps"
    using Cons.prems by (simp add: agg_rest_Cons_nonempty [OF b])
  show ?case
  proof (cases "T \<le> length p")
    case True
    show ?thesis
      unfolding l agg_rest_Cons_empty using True Cons.IH [OF Cons.prems(1) True] by simp
  next
    case False
    show ?thesis
      unfolding l agg_rest_Cons_empty using False by simp
  qed
qed

lemma spec_aggregate_full_buffer:
  "buf \<noteq> [] \<Longrightarrow> T \<le> length buf \<Longrightarrow>
   spec_aggregate T buf ps = buf # spec_aggregate T [] ps"
proof (induction ps arbitrary: buf)
  case Nil
  then show ?case by simp
next
  case (Cons p ps)
  have l: "spec_aggregate T buf (p # ps) = buf # spec_aggregate T p ps"
    using Cons.prems by (simp add: blank_line_def)
  show ?case
  proof (cases "T < length p")
    case True
    then have "p \<noteq> []" and "T \<le> length p" by auto
    then have "spec_aggregate T p ps = p # spec_aggregate T [] ps"
      by (rule Cons.IH)
    then show ?thesis
      unfolding l using True by simp
  next
    case False
    then show ?thesis
      unfolding l by simp
  qed
qed

lemma agg_rest_spec:
  "0 < T \<Longrightarrow> agg_rest T buf ps = spec_aggregate T buf ps"
proof (induction ps arbitrary: buf)
  case Nil
  show ?case by simp
next
  case (Cons p ps)
  note IH = Cons.IH [OF Cons.prems]
  show ?case
  proof (cases "buf = []")
    case True
    consider "T < length p" | "length p = T" | "length p < T" by linarith
    then show ?thesis
    proof cases
      case 1
      then show ?thesis
        unfolding True agg_rest_Cons_empty using IH by simp
    next
      case 2
      then have "p \<noteq> []" using Cons.prems by auto
      then have "spec_aggregate T p ps = p # spec_aggregate T [] ps"
        using 2 spec_aggregate_full_buffer [of p T ps] by simp
      then show ?thesis
        unfolding True agg_rest_Cons_empty using 2 IH by simp
    next
      case 3
      then show ?thesis
        unfolding True agg_rest_Cons_empty using IH by simp
    qed
  next
    case False
    show ?thesis
      unfolding agg_rest_Cons_nonempty [OF False] using False IH by (simp add: blank_line_def)
  qed
qed

text \<open>
  C4 (greedy rule of the aggregator). For every paragraph list and every positive character
  target, the loop of \<open>aggregateParagraphsIntoChunks\<close> emits exactly the candidates of the
  rule the specification words: paragraphs are accumulated in a buffer joined by a blank
  line; the buffer is flushed exactly when it is non-empty and appending the next paragraph
  with its separator would make it longer than the target; a paragraph longer than the
  target that meets an empty buffer is emitted at once, on its own; the remaining buffer is
  flushed at the end.
\<close>

theorem aggregate_greedy_rule:
  "0 < charTarget \<Longrightarrow>
   aggregateParagraphsIntoChunks paragraphs charTarget = spec_aggregate charTarget [] paragraphs"
  by (simp add: aggregate_agg_rest agg_rest_spec)

theorem aggregate_greedy_rule_witness:
  "(0::nat) < 5 \<and>
   aggregateParagraphsIntoChunks [[97, 97, 97], [98, 98], [99, 99, 99, 99, 99, 99], [100]] 5
     = [[97, 97, 97], [98, 98], [99, 99, 99, 99, 99, 99], [100]] \<and>
   spec_aggregate 5 [] [[97, 97, 97], [98, 98], [99, 99, 99, 99, 99, 99], [100]]
     = [[97, 97, 97], [98, 98], [99, 99, 99, 99, 99, 99], [100]]"
proof -
  have h: "(0::nat) < 5" by simp
  have e: "spec_aggregate 5 [] [[97, 97, 97], [98, 98], [99, 99, 99, 99, 99, 99], [100]]
     = [[97, 97, 97], [98, 98], [99, 99, 99, 99, 99, 99], [100]]"
    by (simp add: blank_line_def)
  have a: "aggregateParagraphsIntoChunks [[97, 97, 97], [98, 98], [99, 99, 99, 99, 99, 99], [100]] 5
     = spec_aggregate 5 [] [[97, 97, 97], [98, 98], [99, 99, 99, 99, 99, 99], [100]]"
    by (rule aggregate_greedy_rule [OF h])
  show ?thesis
    unfolding a e using h by (simp only: simp_thms)
qed

section \<open>Properties of the container encoder\<close>

lemma scan_back_found:
  "L < n \<Longrightarrow> \<bar>getInt16_le bytes (r + 2 * L)\<bar> > 5 \<Longrightarrow>
   (\<And>j. L < j \<Longrightarrow> j < n \<Longrightarrow> \<bar>getInt16_le bytes (r + 2 * j)\<bar> \<le> 5) \<Longrightarrow>
   scan_back bytes r n = Some (r + 2 * L)"
proof (induction n)
  case 0
  then show ?case by simp
next
  case (Suc n)
  show ?case
  proof (cases "L = n")
    case True
    then show ?thesis
      using Suc.prems(2) by (simp add: BYTES_PER_SAMPLE_def SILENCE_THRESHOLD_def)
  next
    case False
    then have Ln: "L < n" using Suc.prems(1) by simp
    have silent: "\<bar>getInt16_le bytes (r + 2 * n)\<bar> \<le> 5"
      using Suc.prems(3) [of n] Ln by simp
    have "scan_back bytes r n = Some (r + 2 * L)"
      using Suc.IH [OF Ln Suc.prems(2)] Suc.prems(3) by simp
    then show ?thesis
      using silent by (simp add: BYTES_PER_SAMPLE_def SILENCE_THRESHOLD_def)
  qed
qed

lemma trim_scenario:
  assumes len: "length bytes = 2 * 192000"
    and loud: "\<bar>sample_at bytes 119999\<bar> > 5"
    and quiet: "\<And>j. 120000 \<le> j \<Longrightarrow> j < 192000 \<Longrightarrow> \<bar>sample_at bytes j\<bar> \<le> 5"
  shows "trim_trailing_silence bytes 24000 = take 263998 bytes"
proof -
  have "scan_back bytes 0 192000 = Some (0 + 2 * 119999)"
  proof (rule scan_back_found)
    show "(119999::nat) < 192000" by simp
    show "5 < \<bar>getInt16_le bytes (0 + 2 * 119999)\<bar>"
      using loud by (simp add: sample_at_def)
    fix j :: nat
    assume "119999 < j" "j < 192000"
    then show "\<bar>getInt16_le bytes (0 + 2 * j)\<bar> \<le> 5"
      using quiet [of j] by (simp add: sample_at_def)
  qed
  then have "lastNonSilentOffset bytes = Some 239998"
    using len by (simp add: lastNonSilentOffset_def BYTES_PER_SAMPLE_def)
  then show ?thesis
    using len
    by (simp add: trim_trailing_silence_def BYTES_PER_SAMPLE_def MIN_SILENCE_DURATION_MS_def
          PADDING_DURATION_MS_def)
qed

lemma wav_header_length: "length (wav_header sr ch bd ds) = 44"
  by (simp add: wav_header_def le16_def le32_def writeString_def Let_def)

lemma createWav_scenario:
  assumes nonblank: "trim b64 \<noteq> []"
    and dec: "atob b64 = Some chars"
    and len: "length chars = 2 * 192000"
    and loud: "\<bar>sample_at (map of_nat chars) 119999\<bar> > 5"
    and quiet: "\<And>j. 120000 \<le> j \<Longrightarrow> j < 192000 \<Longrightarrow> \<bar>sample_at (map of_nat chars) j\<bar> \<le> 5"
  shows "wav_sample_count (createWavBlobFromPcm atob b64 24000 1 16) = 131999"
proof -
  let ?bytes = "map of_nat chars :: byte list"
  have l: "length ?bytes = 2 * 192000" using len by simp
  have t: "trim_trailing_silence ?bytes 24000 = take 263998 ?bytes"
    using l loud quiet by (rule trim_scenario)
  have b: "b64 \<noteq> []" using nonblank by (auto simp: trim_def)
  have ne: "chars \<noteq> []" using len by auto
  have "createWavBlobFromPcm atob b64 24000 1 16 =
        Blob (wav_header 24000 1 16 263998 @ take 263998 ?bytes)"
    using nonblank b dec l ne by (simp add: createWavBlobFromPcm_def t Let_def)
  then show ?thesis
    using l by (simp add: wav_sample_count_def wav_data_def headerSize_def wav_header_length
                  BYTES_PER_SAMPLE_def)
qed

lemma concat_replicate_pair_nth:
  "j < n \<Longrightarrow> concat (replicate n [a, b]) ! (2 * j) = a \<and> concat (replicate n [a, b]) ! (2 * j + 1) = b"
proof (induction n arbitrary: j)
  case 0
  then show ?case by simp
next
  case (Suc n)
  show ?case
  proof (cases j)
    case 0
    then show ?thesis by simp
  next
    case (Suc k)
    then have "k < n" using Suc.prems by simp
    then show ?thesis using Suc.IH [of k] Suc by simp
  qed
qed

lemma length_concat_replicate_pair: "length (concat (replicate n [a, b])) = 2 * n"
  by (induction n) auto

lemma scenario_pcm_length: "length scenario_pcm = 2 * 192000"
  by (simp add: scenario_pcm_def length_concat_replicate_pair)

lemma scenario_loud: "j < 120000 \<Longrightarrow> sample_at (map of_nat scenario_pcm) j = 1000"
proof -
  assume j: "j < 120000"
  have i0: "2 * j < length scenario_pcm" and i1: "2 * j + 1 < length scenario_pcm"
    using j by (simp_all add: scenario_pcm_length)
  have n0: "scenario_pcm ! (2 * j) = 232" and n1: "scenario_pcm ! Suc (2 * j) = 3"
    using j concat_replicate_pair_nth [of j 120000 "232::nat" "3::nat"]
    by (simp_all add: scenario_pcm_def nth_append length_concat_replicate_pair)
  show ?thesis
    using i0 i1 by (simp add: sample_at_def getInt16_le_def n0 n1 word_cat_eq)
qed

lemma scenario_quiet:
  "120000 \<le> j \<Longrightarrow> j < 192000 \<Longrightarrow> sample_at (map of_nat scenario_pcm) j = 0"
proof -
  assume j: "120000 \<le> j" "j < 192000"
  have i0: "2 * j < length scenario_pcm" and i1: "2 * j + 1 < length scenario_pcm"
    using j by (simp_all add: scenario_pcm_length)
  have n0: "scenario_pcm ! (2 * j) = 0" and n1: "scenario_pcm ! Suc (2 * j) = 0"
    using j by (simp_all add: scenario_pcm_def nth_append length_concat_replicate_pair)
  show ?thesis
    using i0 i1 by (simp add: sample_at_def getInt16_le_def n0 n1 word_cat_eq)
qed

text \<open>
  C5 (silence-trim scenario). On 16-bit little-endian mono PCM at 24000 Hz made of 120000
  samples above the silence threshold followed by 72000 samples at or below it, the data
  section written by \<open>createWavBlobFromPcm\<close> holds 131999 samples, one less than the
  132000 (signal plus 0.5 s of padding) of the scenario: \<open>lastNonSilentSample\<close> is an
  index, so \<open>lastNonSilentSample + paddingSamples\<close> keeps the 120000 samples of signal
  and 11999 samples of padding.
\<close>

theorem trailing_silence_scenario_131999:
  assumes "trim b64 \<noteq> []"
    and "atob b64 = Some chars"
    and "length chars = 2 * 192000"
    and loud: "\<And>j. j < 120000 \<Longrightarrow> \<bar>sample_at (map of_nat chars) j\<bar> > 5"
    and "\<And>j. 120000 \<le> j \<Longrightarrow> j < 192000 \<Longrightarrow> \<bar>sample_at (map of_nat chars) j\<bar> \<le> 5"
  shows "wav_sample_count (createWavBlobFromPcm atob b64 24000 1 16) = 131999"
proof (rule createWav_scenario)
  show "trim b64 \<noteq> []" "atob b64 = Some chars" "length chars = 2 * 192000"
    by (fact assms(1) assms(2) assms(3))+
  show "\<bar>sample_at (map of_nat chars) 119999\<bar> > 5" by (rule loud) simp
  fix j :: nat
  assume "120000 \<le> j" "j < 192000"
  then show "\<bar>sample_at (map of_nat chars) j\<bar> \<le> 5" by (rule assms(5))
qed

theorem trailing_silence_scenario_witness:
  "wav_sample_count (createWavBlobFromPcm scenario_atob [65] 24000 1 16) = 131999
   \<and> wav_sample_count (createWavBlobFromPcm scenario_atob [65] 24000 1 16) \<noteq> 132000"
proof -
  have "wav_sample_count (createWavBlobFromPcm scenario_atob [65] 24000 1 16) = 131999"
  proof (rule trailing_silence_scenario_131999)
    show "trim [65] \<noteq> []" by (simp add: trim_def is_ws_def)
    show "scenario_atob [65] = Some scenario_pcm" by (simp add: scenario_atob_def)
    show "length scenario_pcm = 2 * 192000" by (rule scenario_pcm_length)
  next
    fix j :: nat
    assume "j < 120000"
    then show "5 < \<bar>sample_at (map of_nat scenario_pcm) j\<bar>"
      using scenario_loud [of j] by simp
  next
    fix j :: nat
    assume "120000 \<le> j" "j < 192000"
    then show "\<bar>sample_at (map of_nat scenario_pcm) j\<bar> \<le> 5"
      using scenario_quiet [of j] by simp
  qed
  then show ?thesis by simp
qed

section \<open>Properties of the token count\<close>

lemma countTokens_loop_success:
  "attempt \<le> 2 \<Longrightarrow> ai (calls st) (fullTextToCount vp t) = Inr n \<Longrightarrow>
   countTokens_loop ai vp t attempt le st =
     (Inr n, \<lparr>calls = calls st + 1,
              sleeps = (if attempt > 0 then sleeps st @ [1000 * attempt] else sleeps st)\<rparr>)"
  by (subst countTokens_loop.simps, cases st)
     (simp add: MAX_RETRIES_def RETRY_DELAY_MS_def Let_def)

lemma countTokens_loop_final_error:
  "attempt \<le> 2 \<Longrightarrow> ai (calls st) (fullTextToCount vp t) = Inl e \<Longrightarrow>
   \<not> isServerError e \<or> attempt = 2 \<Longrightarrow>
   countTokens_loop ai vp t attempt le st =
     (Inl e, \<lparr>calls = calls st + 1,
              sleeps = (if attempt > 0 then sleeps st @ [1000 * attempt] else sleeps st)\<rparr>)"
  by (subst countTokens_loop.simps, cases st)
     (auto simp add: MAX_RETRIES_def RETRY_DELAY_MS_def Let_def)

lemma countTokens_loop_retry:
  "attempt < 2 \<Longrightarrow> ai (calls st) (fullTextToCount vp t) = Inl e \<Longrightarrow> isServerError e \<Longrightarrow>
   countTokens_loop ai vp t attempt le st =
     countTokens_loop ai vp t (attempt + 1) e
       \<lparr>calls = calls st + 1,
        sleeps = (if attempt > 0 then sleeps st @ [1000 * attempt] else sleeps st)\<rparr>"
  by (subst countTokens_loop.simps, cases st)
     (simp add: MAX_RETRIES_def RETRY_DELAY_MS_def Let_def)

lemma count_fail_fail_success:
  assumes "ai (calls st) (fullTextToCount vp t) = Inl e1" "isServerError e1"
    and "ai (calls st + 1) (fullTextToCount vp t) = Inl e2" "isServerError e2"
    and "ai (calls st + 2) (fullTextToCount vp t) = Inr n"
  shows "countTokensForText ai vp t st =
           (Inr n, \<lparr>calls = calls st + 3, sleeps = sleeps st @ [1000, 2000]\<rparr>)"
proof -
  let ?s1 = "\<lparr>calls = calls st + 1, sleeps = sleeps st\<rparr>"
  let ?s2 = "\<lparr>calls = calls st + 2, sleeps = sleeps st @ [1000]\<rparr>"
  have "countTokensForText ai vp t st = countTokens_loop ai vp t 1 e1 ?s1"
    using countTokens_loop_retry [of 0 ai st vp t e1 ThrownNull] assms(1,2)
    by (simp add: countTokensForText_def)
  also have "\<dots> = countTokens_loop ai vp t 2 e2 ?s2"
    using countTokens_loop_retry [of 1 ai ?s1 vp t e2 e1] assms(3,4) by (simp add: numeral_2_eq_2)
  also have "\<dots> = (Inr n, \<lparr>calls = calls st + 3, sleeps = sleeps st @ [1000, 2000]\<rparr>)"
    using countTokens_loop_success [of 2 ai ?s2 vp t n e2] assms(5) by (simp add: numeral_3_eq_3 numeral_2_eq_2)
  finally show ?thesis .
qed

lemma count_permanent_failure:
  assumes "ai (calls st) (fullTextToCount vp t) = Inl e" "\<not> isServerError e"
  shows "countTokensForText ai vp t st = (Inl e, \<lparr>calls = calls st + 1, sleeps = sleeps st\<rparr>)"
  using countTokens_loop_final_error [of 0 ai st vp t e ThrownNull] assms
  by (simp add: countTokensForText_def)

lemma count_retries_exhausted:
  assumes "ai (calls st) (fullTextToCount vp t) = Inl e1" "isServerError e1"
    and "ai (calls st + 1) (fullTextToCount vp t) = Inl e2" "isServerError e2"
    and "ai (calls st + 2) (fullTextToCount vp t) = Inl e3"
  shows "countTokensForText ai vp t st =
           (Inl e3, \<lparr>calls = calls st + 3, sleeps = sleeps st @ [1000, 2000]\<rparr>)"
proof -
  let ?s1 = "\<lparr>calls = calls st + 1, sleeps = sleeps st\<rparr>"
  let ?s2 = "\<lparr>calls = calls st + 2, sleeps = sleeps st @ [1000]\<rparr>"
  have "countTokensForText ai vp t st = countTokens_loop ai vp t 1 e1 ?s1"
    using countTokens_loop_retry [of 0 ai st vp t e1 ThrownNull] assms(1,2)
    by (simp add: countTokensForText_def)
  also have "\<dots> = countTokens_loop ai vp t 2 e2 ?s2"
    using countTokens_loop_retry [of 1 ai ?s1 vp t e2 e1] assms(3,4) by (simp add: numeral_2_eq_2)
  also have "\<dots> = (Inl e3, \<lparr>calls = calls st + 3, sleeps = sleeps st @ [1000, 2000]\<rparr>)"
    using countTokens_loop_final_error [of 2 ai ?s2 vp t e3 e2] assms(5) by (simp add: numeral_3_eq_3 numeral_2_eq_2)
  finally show ?thesis .
qed


lemma countTokensForText_bounded:
  "calls st < calls (snd (countTokensForText ai vp t st)) \<and>
   calls (snd (countTokensForText ai vp t st)) \<le> calls st + 3 \<and>
   sleeps (snd (countTokensForText ai vp t st)) =
     sleeps st @ take (calls (snd (countTokensForText ai vp t st)) - calls st - 1) [1000, 2000]"
proof (cases "ai (calls st) (fullTextToCount vp t)")
  case (Inr n)
  then show ?thesis
    using countTokens_loop_success [of 0 ai st vp t n ThrownNull]
    by (simp add: countTokensForText_def)
next
  case e0: (Inl e0)
  show ?thesis
  proof (cases "isServerError e0")
    case False
    then show ?thesis using count_permanent_failure [of ai st vp t e0] e0 by simp
  next
    case s0: True
    show ?thesis
    proof (cases "ai (calls st + 1) (fullTextToCount vp t)")
      case (Inr n)
      let ?s1 = "\<lparr>calls = calls st + 1, sleeps = sleeps st\<rparr>"
      have "countTokensForText ai vp t st = countTokens_loop ai vp t 1 e0 ?s1"
        using countTokens_loop_retry [of 0 ai st vp t e0 ThrownNull] e0 s0
        by (simp add: countTokensForText_def)
      then show ?thesis
        using countTokens_loop_success [of 1 ai ?s1 vp t n e0] Inr by simp
    next
      case e1: (Inl e1)
      let ?s1 = "\<lparr>calls = calls st + 1, sleeps = sleeps st\<rparr>"
      have c1: "countTokensForText ai vp t st = countTokens_loop ai vp t 1 e0 ?s1"
        using countTokens_loop_retry [of 0 ai st vp t e0 ThrownNull] e0 s0
        by (simp add: countTokensForText_def)
      show ?thesis
      proof (cases "isServerError e1")
        case False
        then show ?thesis
          using c1 countTokens_loop_final_error [of 1 ai ?s1 vp t e1 e0] e1 by simp
      next
        case s1: True
        show ?thesis
        proof (cases "ai (calls st + 2) (fullTextToCount vp t)")
          case (Inr n)
          then show ?thesis
            using count_fail_fail_success [of ai st vp t e0 e1] e0 s0 e1 s1 by simp
        next
          case (Inl e2)
          then show ?thesis
            using count_retries_exhausted [of ai st vp t e0 e1] e0 s0 e1 s1 by simp
        qed
      qed
    qed
  qed
qed

lemma push_chunk_record:
  "push_chunk ttl base txt suffix stat tc details (s\<lparr>ost := o'\<rparr>) =
     \<lparr>finalAudiobookChunks = finalAudiobookChunks s @
        [\<lparr>index = chunkIndex s, chunkText = txt, chapterTitle = Some ttl,
          fileName = part_file_name base (chunkIndex s + 1) suffix,
          status = stat, tokenCount = tc, errorDetails = details\<rparr>],
      chunkIndex = chunkIndex s + 1, ost = o'\<rparr>"
  by (cases s) (simp add: push_chunk_def)

section \<open>Properties of strings and of \<open>split\<close>\<close>

lemma strip_ws_append [simp]: "strip_ws (a @ b) = strip_ws a @ strip_ws b"
  by (simp add: strip_ws_def)

lemma strip_ws_Nil [simp]: "strip_ws [] = []"
  by (simp add: strip_ws_def)

lemma strip_ws_Cons: "strip_ws (c # cs) = (if is_ws c then strip_ws cs else c # strip_ws cs)"
  by (simp add: strip_ws_def)

lemma strip_ws_all_ws: "(\<forall>c \<in> set s. is_ws c) \<Longrightarrow> strip_ws s = []"
  by (simp add: strip_ws_def)

lemma strip_ws_empty_iff: "strip_ws s = [] \<longleftrightarrow> (\<forall>c \<in> set s. is_ws c)"
  by (auto simp: strip_ws_def filter_empty_conv)

lemma strip_ws_dropWhile: "strip_ws (dropWhile is_ws s) = strip_ws s"
  by (induction s) (simp_all add: strip_ws_Cons)

lemma strip_ws_rev: "strip_ws (rev s) = rev (strip_ws s)"
  by (simp add: strip_ws_def rev_filter)

lemma strip_ws_trim [simp]: "strip_ws (trim s) = strip_ws s"
  by (simp add: trim_def strip_ws_rev strip_ws_dropWhile)

lemma trim_empty_iff: "trim s = [] \<longleftrightarrow> (\<forall>c \<in> set s. is_ws c)"
proof
  assume a: "trim s = []"
  have "strip_ws s = strip_ws (trim s)" by simp
  also have "\<dots> = []" by (simp only: a strip_ws_Nil)
  finally show "\<forall>c \<in> set s. is_ws c" by (simp add: strip_ws_empty_iff)
next
  assume "\<forall>c \<in> set s. is_ws c"
  then have d: "dropWhile is_ws s = []" by simp
  show "trim s = []" unfolding trim_def d by simp
qed

lemma trim_empty_strip: "trim s = [] \<longleftrightarrow> strip_ws s = []"
  by (simp add: trim_empty_iff strip_ws_empty_iff)

lemma strip_ws_concat: "strip_ws (concat xs) = concat (map strip_ws xs)"
  by (induction xs) simp_all

lemma strip_ws_concat_trimmed:
  "strip_ws (concat (filter nonempty (map trim xs))) = strip_ws (concat xs)"
proof (induction xs)
  case Nil
  show ?case by simp
next
  case (Cons x xs)
  show ?case
  proof (cases "trim x = []")
    case True
    then have "strip_ws x = []" by (simp add: trim_empty_strip)
    then show ?thesis using True Cons by (simp add: nonempty_def)
  next
    case False
    then show ?thesis using Cons by (simp add: nonempty_def)
  qed
qed

lemma split_loop_coverage:
  "ws_matcher m \<Longrightarrow> strip_ws (concat (split_loop m prev piece rest)) = strip_ws (piece @ rest)"
proof (induction m prev piece rest rule: split_loop.induct)
  case (1 m prev piece)
  show ?case by (simp add: split_loop.simps)
next
  case (2 m prev piece c cs)
  show ?case
  proof (cases "m prev (c # cs)")
    case None
    then show ?thesis using 2 by (simp add: split_loop.simps)
  next
    case (Some k)
    show ?thesis
    proof (cases "k = 0")
      case True
      then show ?thesis using 2 Some by (simp add: split_loop.simps)
    next
      case False
      have ws: "\<forall>x \<in> set (take k (c # cs)). is_ws x"
        using "2.prems" Some by (auto simp: ws_matcher_def)
      have "strip_ws (c # cs) = strip_ws (take k (c # cs) @ drop k (c # cs))" by simp
      also have "\<dots> = strip_ws (drop k (c # cs))"
        using ws by (simp only: strip_ws_append strip_ws_all_ws append_Nil)
      finally have d: "strip_ws (c # cs) = strip_ws (drop k (c # cs))" .
      have "strip_ws (concat (split_loop m prev piece (c # cs))) =
            strip_ws piece @ strip_ws (concat (split_loop m (Some (last (take k (c # cs)))) []
                                                (drop k (c # cs))))"
        using Some False by (simp add: split_loop.simps)
      also have "\<dots> = strip_ws piece @ strip_ws (drop k (c # cs))"
        using "2.IH"(4) [OF Some False "2.prems"] by simp
      finally show ?thesis using d by simp
    qed
  qed
qed

lemma js_split_coverage:
  "ws_matcher m \<Longrightarrow> strip_ws (concat (js_split m s)) = strip_ws s"
  by (simp add: js_split_def split_loop_coverage)

lemma para_match_Some:
  "para_match prev rest = Some k \<Longrightarrow>
   \<exists>r. rest = 10 # 10 # r \<and> k = Suc (Suc (length (takeWhile (\<lambda>c. c = 10) r)))"
  by (auto simp: para_match_def split: list.splits if_splits)

lemma para_match_ws: "ws_matcher para_match"
proof -
  have "\<forall>c \<in> set (take k rest). is_ws c" if h: "para_match prev rest = Some k" for prev rest k
  proof -
    obtain r where rest: "rest = 10 # 10 # r"
      and k: "k = Suc (Suc (length (takeWhile (\<lambda>c. c = 10) r)))"
      using para_match_Some [OF h] by blast
    have "take k rest = 10 # 10 # takeWhile (\<lambda>c. c = 10) r"
      using rest k by (simp add: takeWhile_eq_take [symmetric])
    moreover have "\<forall>c \<in> set (takeWhile (\<lambda>c. c = 10) r). c = 10"
      by (auto dest: set_takeWhileD)
    ultimately show ?thesis by (auto simp: is_ws_def)
  qed
  then show ?thesis unfolding ws_matcher_def by blast
qed

lemma find_Some_set: "List.find P xs = Some x \<Longrightarrow> x \<in> set xs \<and> P x"
  by (induction xs) (auto split: if_splits)

lemma take_takeWhile_le:
  "k \<le> length (takeWhile P xs) \<Longrightarrow> take k xs = take k (takeWhile P xs)"
proof -
  assume k: "k \<le> length (takeWhile P xs)"
  have "take k xs = take k (takeWhile P xs @ dropWhile P xs)" by simp
  also have "\<dots> = take k (takeWhile P xs)" using k by (simp only: take_append) simp
  finally show ?thesis .
qed

lemma backtrack_Some:
  "backtrack rest lo = Some k \<Longrightarrow>
   lo \<le> k \<and> k \<le> length (takeWhile is_ws rest) \<and> lookahead_start (drop k rest)"
  unfolding backtrack_def by (auto dest!: find_Some_set)

lemma backtrack_ws:
  assumes "backtrack rest lo = Some k"
  shows "\<forall>c \<in> set (take k rest). is_ws c"
proof -
  have "k \<le> length (takeWhile is_ws rest)"
    using backtrack_Some [OF assms] by simp
  then have "take k rest = take k (takeWhile is_ws rest)"
    by (rule take_takeWhile_le)
  then show ?thesis
    by (auto dest: in_set_takeD set_takeWhileD)
qed

lemma sent_match_ws: "ws_matcher sent_match"
  unfolding ws_matcher_def sent_match_def
  by (auto split: option.splits if_splits dest: backtrack_ws)

lemma splitTextIntoParagraphs_coverage:
  "strip_ws (concat (splitTextIntoParagraphs t)) = strip_ws t"
  by (simp add: splitTextIntoParagraphs_def strip_ws_concat_trimmed
        js_split_coverage [OF para_match_ws])

section \<open>Properties of the validation loop\<close>

lemma validator_inv_push:
  assumes "validator_inv ttl base s"
    and "produced_chunk ttl base
           \<lparr>index = chunkIndex s, chunkText = txt, chapterTitle = Some ttl,
            fileName = part_file_name base (chunkIndex s + 1) suffix,
            status = stat, tokenCount = tc, errorDetails = details\<rparr>"
  shows "validator_inv ttl base (push_chunk ttl base txt suffix stat tc details (s\<lparr>ost := o'\<rparr>))"
  using assms by (simp add: push_chunk_record validator_inv_def)

lemma validator_inv_subsegment:
  assumes "validator_inv ttl base s"
  shows "validator_inv ttl base (process_subsegment ai vp ttl base s sub)"
proof (cases "trim sub = []")
  case True
  then show ?thesis using assms by (simp add: process_subsegment_def)
next
  case False
  obtain r o' where c: "countTokensForText ai vp sub (ost s) = (r, o')"
    by (cases "countTokensForText ai vp sub (ost s)")
  show ?thesis
  proof (cases r)
    case (Inl e)
    have "validator_inv ttl base
            (push_chunk ttl base (error_snippet sub) (asc ''_SUB_TOKEN_ERR'') Error None
               (Some (asc ''Token counting failed for this re-split sub-segment: '' @ error_text e))
               (s\<lparr>ost := o'\<rparr>))"
      by (rule validator_inv_push [OF assms]) (simp add: produced_chunk_def)
    then show ?thesis using False c Inl by (simp add: process_subsegment_def)
  next
    case (Inr n)
    show ?thesis
    proof (cases "n \<le> MAX_TTS_TOKENS")
      case True
      have "validator_inv ttl base
              (push_chunk ttl base sub [] Pending (Some n) None (s\<lparr>ost := o'\<rparr>))"
        using True by (intro validator_inv_push [OF assms]) (simp add: produced_chunk_def)
      then show ?thesis using False c Inr True by (simp add: process_subsegment_def)
    next
      case over: False
      have "validator_inv ttl base
              (push_chunk ttl base sub (asc ''_OVERSIZED'') Pending (Some n) None (s\<lparr>ost := o'\<rparr>))"
        using over by (intro validator_inv_push [OF assms]) (simp add: produced_chunk_def)
      then show ?thesis using False c Inr over by (simp add: process_subsegment_def)
    qed
  qed
qed

lemma validator_inv_subsegments:
  "validator_inv ttl base s \<Longrightarrow>
   validator_inv ttl base (foldl (process_subsegment ai vp ttl base) s subs)"
  by (induction subs arbitrary: s) (simp_all add: validator_inv_subsegment)

lemma validator_inv_ost: "validator_inv ttl base (s\<lparr>ost := o'\<rparr>) = validator_inv ttl base s"
  by (simp add: validator_inv_def)

lemma ideal_below_max: "IDEAL_CHUNK_TOKEN_UPPER_BOUND \<le> MAX_TTS_TOKENS"
  by (simp add: IDEAL_CHUNK_TOKEN_UPPER_BOUND_def IDEAL_TOKENS_PER_CHUNK_def MAX_TTS_TOKENS_def)

lemma validator_inv_candidate:
  assumes "validator_inv ttl base s"
    and "process_candidate ai vp ttl base s cand = Some s'"
  shows "validator_inv ttl base s'"
proof -
  obtain r o' where c: "countTokensForText ai vp cand (ost s) = (r, o')"
    by (cases "countTokensForText ai vp cand (ost s)")
  show ?thesis
  proof (cases r)
    case (Inl e)
    have "validator_inv ttl base
            (push_chunk ttl base (error_snippet cand) (asc ''_TOKEN_ERR'') Error None
               (Some (asc ''Token counting failed for this candidate chunk: '' @ error_text e))
               (s\<lparr>ost := o'\<rparr>))"
      by (rule validator_inv_push [OF assms(1)]) (simp add: produced_chunk_def)
    then show ?thesis using assms(2) c Inl by (simp add: process_candidate_def)
  next
    case (Inr n)
    show ?thesis
    proof (cases "n \<le> IDEAL_CHUNK_TOKEN_UPPER_BOUND")
      case True
      then have "n \<le> MAX_TTS_TOKENS" using ideal_below_max by simp
      then have "validator_inv ttl base
              (push_chunk ttl base cand [] Pending (Some n) None (s\<lparr>ost := o'\<rparr>))"
        by (intro validator_inv_push [OF assms(1)]) (simp add: produced_chunk_def)
      then show ?thesis using assms(2) c Inr True by (simp add: process_candidate_def)
    next
      case False
      then obtain subs where
        "s' = foldl (process_subsegment ai vp ttl base) (s\<lparr>ost := o'\<rparr>) subs"
        using assms(2) c Inr by (auto simp: process_candidate_def split: option.splits)
      then show ?thesis
        using validator_inv_subsegments [of ttl base "s\<lparr>ost := o'\<rparr>" ai vp subs] assms(1)
        by (simp add: validator_inv_ost)
    qed
  qed
qed

lemma validator_inv_candidates:
  "validator_inv ttl base s \<Longrightarrow> process_candidates ai vp ttl base s cands = Some s' \<Longrightarrow>
   validator_inv ttl base s'"
proof (induction cands arbitrary: s)
  case Nil
  then show ?case by simp
next
  case (Cons cand cands)
  then obtain s1 where s1: "process_candidate ai vp ttl base s cand = Some s1"
    and rest: "process_candidates ai vp ttl base s1 cands = Some s'"
    by (auto split: option.splits)
  have "validator_inv ttl base s1"
    using validator_inv_candidate [OF Cons.prems(1) s1] .
  then show ?case using Cons.IH rest by blast
qed

lemma agg_rest_coverage:
  "strip_ws (concat (agg_rest T buf ps)) = strip_ws (buf @ concat ps)"
proof (induction ps arbitrary: buf)
  case Nil
  show ?case by simp
next
  case (Cons p ps)
  have bl: "strip_ws blank_line = []"
    by (simp add: blank_line_def strip_ws_Cons is_ws_def)
  show ?case
  proof (cases "buf = []")
    case True
    then show ?thesis using Cons by (simp add: agg_rest_Cons_empty)
  next
    case False
    then show ?thesis using Cons bl by (simp add: agg_rest_Cons_nonempty)
  qed
qed

lemma aggregate_coverage:
  "strip_ws (concat (aggregateParagraphsIntoChunks ps T)) = strip_ws (concat ps)"
  by (simp add: aggregate_agg_rest agg_rest_coverage)

lemma candidates_nonempty:
  assumes "trim t \<noteq> []"
  shows "aggregateParagraphsIntoChunks (splitTextIntoParagraphs (trim t)) T \<noteq> []"
proof
  assume e: "aggregateParagraphsIntoChunks (splitTextIntoParagraphs (trim t)) T = []"
  have "strip_ws (concat (aggregateParagraphsIntoChunks (splitTextIntoParagraphs (trim t)) T))
        = strip_ws t"
    by (simp add: aggregate_coverage splitTextIntoParagraphs_coverage)
  then have "strip_ws t = []" by (simp add: e)
  then show False using assms by (simp add: trim_empty_strip)
qed


lemma createAudiobookChunks_chunks:
  assumes "createAudiobookChunks translit input ai bfb vp = Some (Inr chunks, st)" and "chunks \<noteq> []"
  shows "\<exists>raw ttl. input_text_and_title input bfb = Some (raw, ttl) \<and>
           list_all (produced_chunk ttl (sanitizedFileNameBase translit ttl)) chunks \<and>
           map index chunks = [0 ..< length chunks]"
proof -
  obtain client where ai: "ai = Some client"
    using assms by (cases ai) (auto simp: createAudiobookChunks_def)
  obtain raw ttl where it: "input_text_and_title input bfb = Some (raw, ttl)"
    using assms ai by (cases "input_text_and_title input bfb") (auto simp: createAudiobookChunks_def)
  have ne: "trim raw \<noteq> []"
    using assms ai it by (auto simp: createAudiobookChunks_def Let_def split: if_splits)
  let ?cands = "aggregateParagraphsIntoChunks (splitTextIntoParagraphs (trim raw)) IDEAL_CHARS_PER_CHUNK_TARGET"
  let ?base = "sanitizedFileNameBase translit ttl"
  let ?s0 = "\<lparr>finalAudiobookChunks = [], chunkIndex = 0, ost = \<lparr>calls = 0, sleeps = []\<rparr>\<rparr>"
  have cne: "?cands \<noteq> []" using ne by (rule candidates_nonempty)
  then obtain s where run: "process_candidates client vp ttl ?base ?s0 ?cands = Some s"
    and res: "chunks = finalAudiobookChunks s"
    using assms(1) ai it ne
    by (auto simp: createAudiobookChunks_def Let_def split: option.splits)
  have "validator_inv ttl ?base ?s0" by (simp add: validator_inv_def)
  then have inv: "validator_inv ttl ?base s"
    using run by (rule validator_inv_candidates)
  then have "map index chunks = [0 ..< chunkIndex s]"
    using res by (simp add: validator_inv_def)
  moreover from this have "length chunks = chunkIndex s"
    by (metis length_map length_upt minus_nat.diff_0)
  ultimately show ?thesis using it inv res by (simp add: validator_inv_def)
qed

lemma ends_with_append: "ends_with (a @ suf) suf"
  by (simp add: ends_with_def)

lemma oversized_name_is_oversized:
  "fileName c = part_file_name base k (asc ''_OVERSIZED'') \<Longrightarrow> is_oversized c"
proof -
  assume f: "fileName c = part_file_name base k (asc ''_OVERSIZED'')"
  have "asc ''_OVERSIZED'' @ asc ''.wav'' = asc ''_OVERSIZED.wav''" by (simp add: asc_def)
  then have "fileName c = (base @ asc ''_Part_'' @ padStart3 (nat_to_string k)) @ asc ''_OVERSIZED.wav''"
    using f by (simp add: part_file_name_def)
  then show ?thesis
    unfolding is_oversized_def by (simp only: ends_with_append)
qed


text \<open>A run on the one-letter text \<open>a\<close>, pasted as a string, with the file name base \<open>B\<close>.\<close>

lemma trim_a: "trim [97] = [97]"
  by (simp add: trim_def is_ws_def)

lemma split_a: "splitTextIntoParagraphs [97] = [[97]]"
  by (simp add: splitTextIntoParagraphs_def js_split_def split_loop.simps para_match_def
        trim_a nonempty_def)

lemma aggregate_a: "aggregateParagraphsIntoChunks [[97]] IDEAL_CHARS_PER_CHUNK_TARGET = [[97]]"
  by (simp add: aggregateParagraphsIntoChunks_def agg_step_def IDEAL_CHARS_PER_CHUNK_TARGET_def)

lemma forceSplit_a:
  "forceSplitTextRecursive_SYNC [97] FINE_GRAINED_RECURSIVE_CHAR_TARGET 0 = Some [[97]]"
proof -
  have p: "js_split para_match [97] = [[97]]"
    by (simp add: js_split_def split_loop.simps para_match_def)
  have q: "js_split sent_match [97] = [[97]]"
    by (simp add: js_split_def split_loop.simps sent_match_def)
  have n: "next_split_point [97] 3000 0 = 1"
    by (simp add: next_split_point_def)
  have w: "char_window_loop [97] 3000 0 [] = Some [[97]]"
    by (simp add: char_window_loop.simps n substring_def trim_a)
  show ?thesis
    by (subst forceSplitTextRecursive_SYNC.simps)
       (simp add: trim_a p q w nonempty_def FINE_GRAINED_RECURSIVE_CHAR_TARGET_def
          IDEAL_CHARS_PER_CHUNK_TARGET_def FINE_GRAINED_SPLIT_DIVISOR_def)
qed

lemma part_001: "part_file_name [66] (Suc 0) suffix = asc ''B_Part_001'' @ suffix @ asc ''.wav''"
  by (simp add: part_file_name_def padStart3_def nat_to_string.simps asc_def numeral_2_eq_2)

lemma base_B: "sanitizedFileNameBase no_transliteration [66] = [66]"
  by (simp add: sanitizedFileNameBase_def no_transliteration_def file_name_char_def substring_def)

lemma input_a: "input_text_and_title (Strings [[97]]) [66] = Some ([97], [66])"
  by (simp add: input_text_and_title_def join_blank_def or_else_def)

lemma count_constant:
  "ai (calls st) (fullTextToCount vp t) = Inr n \<Longrightarrow>
   countTokensForText ai vp t st = (Inr n, \<lparr>calls = calls st + 1, sleeps = sleeps st\<rparr>)"
  using countTokens_loop_success [of 0 ai st vp t n ThrownNull]
  by (simp add: countTokensForText_def)

lemma big_oracle_run:
  "createAudiobookChunks no_transliteration (Strings [[97]]) (Some big_oracle) [66] [] =
     Some (Inr [\<lparr>index = 0, chunkText = [97], chapterTitle = Some [66],
                 fileName = asc ''B_Part_001.wav'',
                 status = Pending, tokenCount = Some 5000, errorDetails = None\<rparr>],
           \<lparr>calls = 2, sleeps = []\<rparr>)"
proof -
  have c: "countTokensForText big_oracle [] [97] st = (Inr 5000, \<lparr>calls = calls st + 1, sleeps = sleeps st\<rparr>)"
    for st
    by (rule count_constant) (simp add: big_oracle_def)
  have b: "\<not> (5000::nat) \<le> IDEAL_CHUNK_TOKEN_UPPER_BOUND" "(5000::nat) \<le> MAX_TTS_TOKENS"
    by (simp_all add: IDEAL_CHUNK_TOKEN_UPPER_BOUND_def IDEAL_TOKENS_PER_CHUNK_def MAX_TTS_TOKENS_def)
  show ?thesis
    by (simp add: createAudiobookChunks_def input_a trim_a split_a aggregate_a base_B
          process_candidate_def process_subsegment_def c b forceSplit_a push_chunk_def
          part_001 asc_def)
qed

text \<open>
  C2 (bound respected), as claimed, fails: with an oracle that counts 5000 tokens for every
  text, the candidate \<open>a\<close> is split again into the single sub-segment \<open>a\<close>, which is
  accepted because 5000 does not exceed \<open>MAX_TTS_TOKENS\<close>; the chunk is pending, is not
  flagged oversized, and has 5000 tokens, more than \<open>IDEAL_CHUNK_TOKEN_UPPER_BOUND = 3000\<close>.
\<close>

theorem bound_respected_counterexample:
  "createAudiobookChunks no_transliteration (Strings [[97]]) (Some big_oracle) [66] [] =
     Some (Inr [\<lparr>index = 0, chunkText = [97], chapterTitle = Some [66],
                 fileName = asc ''B_Part_001.wav'',
                 status = Pending, tokenCount = Some 5000, errorDetails = None\<rparr>],
           \<lparr>calls = 2, sleeps = []\<rparr>) \<and>
   IDEAL_CHUNK_TOKEN_UPPER_BOUND = 3000 \<and>
   \<not> bound_respected \<lparr>index = 0, chunkText = [97], chapterTitle = Some [66],
                        fileName = asc ''B_Part_001.wav'',
                        status = Pending, tokenCount = Some 5000, errorDetails = None\<rparr>"
proof -
  have "\<not> ends_with (asc ''B_Part_001.wav'') (asc ''_OVERSIZED.wav'')"
    by (simp add: ends_with_def asc_def)
  then show ?thesis
    using big_oracle_run
    by (simp add: bound_respected_def is_oversized_def IDEAL_CHUNK_TOKEN_UPPER_BOUND_def
          IDEAL_TOKENS_PER_CHUNK_def)
qed

text \<open>
  C2, amended. Every chunk returned by \<open>createAudiobookChunks\<close> that is neither in error
  status nor flagged oversized has a token count, and the count is at most
  \<open>MAX_TTS_TOKENS = 8000\<close>, for every input and every behaviour of the oracle.
\<close>

theorem accepted_chunks_within_hard_limit:
  assumes "createAudiobookChunks translit input ai bfb vp = Some (Inr chunks, st)"
    and "c \<in> set chunks" and "status c \<noteq> Error" and "\<not> is_oversized c"
  shows "\<exists>n. tokenCount c = Some n \<and> n \<le> MAX_TTS_TOKENS \<and> MAX_TTS_TOKENS = 8000"
proof -
  have "chunks \<noteq> []" using assms(2) by auto
  then obtain raw ttl where
    all: "list_all (produced_chunk ttl (sanitizedFileNameBase translit ttl)) chunks"
    using createAudiobookChunks_chunks [OF assms(1)] by blast
  then have p: "produced_chunk ttl (sanitizedFileNameBase translit ttl) c"
    using assms(2) by (simp add: list_all_iff)
  have "fileName c \<noteq> part_file_name (sanitizedFileNameBase translit ttl) (index c + 1) (asc ''_OVERSIZED'')"
    using assms(4) oversized_name_is_oversized by blast
  then show ?thesis
    using p assms(3) by (auto simp: produced_chunk_def MAX_TTS_TOKENS_def)
qed

theorem accepted_chunks_within_hard_limit_witness:
  "\<exists>n. tokenCount \<lparr>index = 0, chunkText = [97], chapterTitle = Some [66],
                      fileName = asc ''B_Part_001.wav'',
                      status = Pending, tokenCount = Some 5000, errorDetails = None\<rparr> = Some n
        \<and> n \<le> MAX_TTS_TOKENS \<and> MAX_TTS_TOKENS = 8000"
proof (rule accepted_chunks_within_hard_limit [OF big_oracle_run])
  show "\<lparr>index = 0, chunkText = [97], chapterTitle = Some [66],
         fileName = asc ''B_Part_001.wav'',
         status = Pending, tokenCount = Some 5000, errorDetails = None\<rparr>
        \<in> set [\<lparr>index = 0, chunkText = [97], chapterTitle = Some [66],
                 fileName = asc ''B_Part_001.wav'',
                 status = Pending, tokenCount = Some 5000, errorDetails = None\<rparr>]"
    by simp
  show "status \<lparr>index = 0, chunkText = [97], chapterTitle = Some [66],
         fileName = asc ''B_Part_001.wav'',
         status = Pending, tokenCount = Some 5000, errorDetails = None\<rparr> \<noteq> Error"
    by simp
  show "\<not> is_oversized \<lparr>index = 0, chunkText = [97], chapterTitle = Some [66],
         fileName = asc ''B_Part_001.wav'',
         status = Pending, tokenCount = Some 5000, errorDetails = None\<rparr>"
    by (simp add: is_oversized_def ends_with_def asc_def)
qed


lemma small_oracle_run:
  "createAudiobookChunks no_transliteration (Strings [[97]]) (Some small_oracle) [66] [] =
     Some (Inr [\<lparr>index = 0, chunkText = [97], chapterTitle = Some [66],
                 fileName = asc ''B_Part_001.wav'',
                 status = Pending, tokenCount = Some 10, errorDetails = None\<rparr>],
           \<lparr>calls = 1, sleeps = []\<rparr>)"
proof -
  have c: "countTokensForText small_oracle [] [97] st = (Inr 10, \<lparr>calls = calls st + 1, sleeps = sleeps st\<rparr>)"
    for st
    by (rule count_constant) (simp add: small_oracle_def)
  have b: "(10::nat) \<le> IDEAL_CHUNK_TOKEN_UPPER_BOUND"
    by (simp_all add: IDEAL_CHUNK_TOKEN_UPPER_BOUND_def IDEAL_TOKENS_PER_CHUNK_def)
  show ?thesis
    by (simp add: createAudiobookChunks_def input_a trim_a split_a aggregate_a base_B
          process_candidate_def c b push_chunk_def part_001 asc_def)
qed

lemma produced_chunk_named:
  "produced_chunk ttl base c \<Longrightarrow> named_by base (index c + 1) (fileName c)"
  by (auto simp: produced_chunk_def named_by_def chunk_suffixes_def)

lemma length_padStart3: "3 \<le> length (padStart3 s)"
  by (simp add: padStart3_def)

text \<open>
  C8 (file name convention), as claimed, fails: the first chunk has index 0 and the file
  name \<open>B_Part_001.wav\<close>, which is not the base followed by \<open>_Part_000\<close>, a suffix and
  \<open>.wav\<close>.
\<close>

theorem file_name_own_index_counterexample:
  "createAudiobookChunks no_transliteration (Strings [[97]]) (Some small_oracle) [66] [] =
     Some (Inr [\<lparr>index = 0, chunkText = [97], chapterTitle = Some [66],
                 fileName = asc ''B_Part_001.wav'',
                 status = Pending, tokenCount = Some 10, errorDetails = None\<rparr>],
           \<lparr>calls = 1, sleeps = []\<rparr>) \<and>
   sanitizedFileNameBase no_transliteration [66] = [66] \<and>
   \<not> named_by [66] 0 (asc ''B_Part_001.wav'')"
proof -
  have "\<not> named_by [66] 0 (asc ''B_Part_001.wav'')"
    by (simp add: named_by_def chunk_suffixes_def part_file_name_def padStart3_def
          nat_to_string.simps asc_def numeral_3_eq_3)
  then show ?thesis
    using small_oracle_run base_B by simp
qed

text \<open>
  C8, amended. Every chunk returned by \<open>createAudiobookChunks\<close> sits at the position of
  its own 0-based index, and its file name is the sanitized title base, \<open>_Part_\<close>, the
  index plus one in decimal padded with zeros to at least three digits, one of the
  suffixes \<open>""\<close>, \<open>_OVERSIZED\<close>, \<open>_TOKEN_ERR\<close>, \<open>_SUB_TOKEN_ERR\<close>, and \<open>.wav\<close>.
\<close>

theorem file_name_convention:
  assumes "createAudiobookChunks translit input ai bfb vp = Some (Inr chunks, st)"
    and "i < length chunks"
  shows "\<exists>raw ttl. input_text_and_title input bfb = Some (raw, ttl) \<and>
           index (chunks ! i) = i \<and>
           named_by (sanitizedFileNameBase translit ttl) (i + 1) (fileName (chunks ! i)) \<and>
           3 \<le> length (padStart3 (nat_to_string (i + 1)))"
proof -
  have "chunks \<noteq> []" using assms(2) by auto
  then obtain raw ttl where it: "input_text_and_title input bfb = Some (raw, ttl)"
    and all: "list_all (produced_chunk ttl (sanitizedFileNameBase translit ttl)) chunks"
    and idx: "map index chunks = [0 ..< length chunks]"
    using createAudiobookChunks_chunks [OF assms(1)] by blast
  have "index (chunks ! i) = map index chunks ! i"
    using assms(2) by simp
  then have i: "index (chunks ! i) = i"
    using assms(2) by (simp add: idx)
  have "produced_chunk ttl (sanitizedFileNameBase translit ttl) (chunks ! i)"
    using all assms(2) by (simp add: list_all_length)
  then have "named_by (sanitizedFileNameBase translit ttl) (i + 1) (fileName (chunks ! i))"
    using produced_chunk_named [of ttl _ "chunks ! i"] i by simp
  then show ?thesis
    using it i length_padStart3 by blast
qed

theorem file_name_convention_witness:
  "\<exists>raw ttl. input_text_and_title (Strings [[97]]) [66] = Some (raw, ttl) \<and>
     index ([\<lparr>index = 0, chunkText = [97], chapterTitle = Some [66],
               fileName = asc ''B_Part_001.wav'',
               status = Pending, tokenCount = Some 10, errorDetails = None\<rparr>] ! 0) = 0 \<and>
     named_by (sanitizedFileNameBase no_transliteration ttl) (0 + 1)
       (fileName ([\<lparr>index = 0, chunkText = [97], chapterTitle = Some [66],
               fileName = asc ''B_Part_001.wav'',
               status = Pending, tokenCount = Some 10, errorDetails = None\<rparr>] ! 0)) \<and>
     3 \<le> length (padStart3 (nat_to_string (0 + 1)))"
  by (rule file_name_convention [OF small_oracle_run]) simp

section \<open>Properties of the splitter\<close>

lemma find_space_back_Some:
  "find_space_back str lo i = Some j \<Longrightarrow> lo < j \<and> j \<le> i \<and> j < length str \<and> is_ws (str ! j)"
proof (induction str lo i rule: find_space_back.induct)
  case (1 str currentPos i)
  show ?case
  proof (cases "i > currentPos")
    case False
    then show ?thesis using "1.prems" by (simp add: find_space_back.simps)
  next
    case True
    show ?thesis
    proof (cases "i < length str \<and> is_ws (str ! i)")
      case here: True
      then have "j = i" using "1.prems" True by (simp add: find_space_back.simps)
      then show ?thesis using here True by simp
    next
      case notHere: False
      then have "find_space_back str currentPos (i - 1) = Some j"
        using "1.prems" True by (subst (asm) find_space_back.simps) auto
      then have "currentPos < j \<and> j \<le> i - 1 \<and> j < length str \<and> is_ws (str ! j)"
        using "1.IH" True notHere by blast
      then show ?thesis by auto
    qed
  qed
qed

lemma next_split_point_progress:
  assumes "0 < target" and "pos < length str"
  shows "pos < next_split_point str target pos \<and> next_split_point str target pos \<le> length str"
proof -
  let ?sp = "min (pos + target) (length str)"
  have sp: "pos < ?sp" "?sp \<le> length str" using assms by auto
  show ?thesis
  proof (cases "?sp < length str")
    case False
    then show ?thesis using sp by (simp add: next_split_point_def Let_def)
  next
    case True
    then have e: "?sp = pos + target" and lt: "pos + target < length str" by auto
    show ?thesis
    proof (cases "find_space_back str pos (pos + target)")
      case None
      then show ?thesis using lt assms by (simp add: next_split_point_def Let_def e)
    next
      case (Some j)
      then have "pos < j \<and> j \<le> pos + target \<and> j < length str"
        using find_space_back_Some [of str pos "pos + target" j] by simp
      then show ?thesis using lt Some by (simp add: next_split_point_def Let_def e)
    qed
  qed
qed

lemma substring_take_drop:
  "a \<le> b \<Longrightarrow> b \<le> length s \<Longrightarrow> substring s a b = take (b - a) (drop a s)"
  by (simp add: substring_def Let_def min_def max_def)

lemma char_window_loop_result:
  assumes "0 < target" and "pos \<le> length str"
  shows "\<exists>r. char_window_loop str target pos results = Some (results @ r) \<and>
             strip_ws (concat r) = strip_ws (drop pos str) \<and> (\<forall>f \<in> set r. f \<noteq> [])"
  using assms(2)
proof (induction "length str - pos" arbitrary: pos results rule: less_induct)
  case less
  show ?case
  proof (cases "pos < length str")
    case False
    then have "char_window_loop str target pos results = Some (results @ [])"
      by (subst char_window_loop.simps) simp
    moreover have "drop pos str = []" using False by simp
    ultimately show ?thesis by (metis concat.simps(1) empty_iff list.set(1) strip_ws_Nil)
  next
    case True
    let ?sp = "next_split_point str target pos"
    let ?part = "trim (substring str pos ?sp)"
    let ?res = "if ?part \<noteq> [] then results @ [?part] else results"
    have sp: "pos < ?sp" "?sp \<le> length str"
      using next_split_point_progress [OF assms(1) True] by simp_all
    have step: "char_window_loop str target pos results = char_window_loop str target ?sp ?res"
      using True by (subst char_window_loop.simps) simp
    have "length str - ?sp < length str - pos" using sp True by simp
    then obtain r where r: "char_window_loop str target ?sp ?res = Some (?res @ r)"
      and cov: "strip_ws (concat r) = strip_ws (drop ?sp str)"
      and ne: "\<forall>f \<in> set r. f \<noteq> []"
      using less.hyps [of ?sp ?res] sp by blast
    have sub: "substring str pos ?sp = take (?sp - pos) (drop pos str)"
      using sp by (simp add: substring_take_drop)
    have split: "drop pos str = take (?sp - pos) (drop pos str) @ drop ?sp str"
      using sp by (metis append_take_drop_id drop_drop le_add_diff_inverse2 less_imp_le_nat)
    have covp: "strip_ws (drop pos str) = strip_ws ?part @ strip_ws (drop ?sp str)"
      by (subst split) (simp add: sub)
    show ?thesis
    proof (cases "?part = []")
      case True
      then have "char_window_loop str target pos results = Some (results @ r)"
        using step r by simp
      moreover have "strip_ws (concat r) = strip_ws (drop pos str)"
        using covp cov True by simp
      ultimately show ?thesis using ne by blast
    next
      case False
      then have "char_window_loop str target pos results = Some (results @ (?part # r))"
        using step r by simp
      moreover have "strip_ws (concat (?part # r)) = strip_ws (drop pos str)"
        using covp cov by simp
      moreover have "\<forall>f \<in> set (?part # r). f \<noteq> []" using ne False by simp
      ultimately show ?thesis by blast
    qed
  qed
qed


lemma those_map_Some:
  "(\<And>x. x \<in> set xs \<Longrightarrow> \<exists>y. f x = Some y \<and> P x y) \<Longrightarrow>
   \<exists>ys. those (map f xs) = Some ys \<and> list_all2 P xs ys"
proof (induction xs)
  case Nil
  show ?case by simp
next
  case (Cons x xs)
  obtain y where y: "f x = Some y" "P x y" using Cons.prems [of x] by auto
  obtain ys where ys: "those (map f xs) = Some ys" "list_all2 P xs ys"
    using Cons.IH Cons.prems by auto
  show ?case using y ys by simp
qed

lemma concat_filter_nonempty: "concat (filter nonempty xs) = concat xs"
  by (induction xs) (simp_all add: nonempty_def)

lemma list_all2_coverage:
  "list_all2 (\<lambda>x y. strip_ws (concat y) = strip_ws x \<and> Q y) xs ys \<Longrightarrow>
   strip_ws (concat (concat ys)) = strip_ws (concat xs)"
  by (induction xs ys rule: list_all2_induct) simp_all

text \<open>What the splitter returns for a positive target: it returns, and the fragments cover the text.\<close>

lemma forceSplit_result:
  "0 < target \<Longrightarrow>
   \<exists>r. forceSplitTextRecursive_SYNC str target depth = Some r \<and>
       strip_ws (concat r) = strip_ws str \<and> (\<forall>f \<in> set r. f \<noteq> [])"
proof (induction str target depth rule: forceSplitTextRecursive_SYNC.induct)
  case (1 str target depth)
  let ?R = "\<lambda>x y. strip_ws (concat y) = strip_ws x \<and> (\<forall>f \<in> set y. f \<noteq> [])"
  show ?case
  proof (cases "trim str = []")
    case True
    then have "forceSplitTextRecursive_SYNC str target depth = Some []"
      by (subst forceSplitTextRecursive_SYNC.simps) simp
    moreover have "strip_ws str = []" using True by (simp add: trim_empty_strip)
    ultimately show ?thesis by simp
  next
    case ne: False
    then have nonnil: "str \<noteq> []" by (auto simp: trim_def)
    show ?thesis
    proof (cases "depth > 15 \<or> (2 * length str \<le> 3 * target \<and> depth > 0)")
      case True
      then have "forceSplitTextRecursive_SYNC str target depth = Some [str]"
        using ne by (subst forceSplitTextRecursive_SYNC.simps) auto
      then show ?thesis using nonnil by simp
    next
      case False
      then have d: "\<not> 15 < depth" and small: "\<not> (2 * length str \<le> 3 * target \<and> 0 < depth)"
        by auto
      have c: "(2 * length str \<le> 3 * target \<and> 0 < depth) = False" using small by simp
      show ?thesis
      proof (cases "length (js_split para_match str) > 1")
        case True
        let ?ps = "filter nonempty (map trim (js_split para_match str))"
        have "\<exists>y. forceSplitTextRecursive_SYNC x target (depth + 1) = Some y \<and> ?R x y"
          if "x \<in> set ?ps" for x
          using "1.IH"(1) [OF ne d small True that "1.prems"] by simp
        then obtain rs where rs: "those (map (\<lambda>para. forceSplitTextRecursive_SYNC para target (depth + 1)) ?ps) = Some rs"
          and all: "list_all2 ?R ?ps rs"
          using those_map_Some [of ?ps "\<lambda>para. forceSplitTextRecursive_SYNC para target (depth + 1)" ?R]
          by blast
        have res: "forceSplitTextRecursive_SYNC str target depth = Some (filter nonempty (concat rs))"
          using ne d True rs by (subst forceSplitTextRecursive_SYNC.simps) (simp add: c)
        have "strip_ws (concat (concat rs)) = strip_ws (concat ?ps)"
          using all by (rule list_all2_coverage)
        also have "\<dots> = strip_ws str"
          by (simp add: strip_ws_concat_trimmed js_split_coverage [OF para_match_ws])
        finally have "strip_ws (concat (filter nonempty (concat rs))) = strip_ws str"
          by (simp add: concat_filter_nonempty)
        then show ?thesis using res by (simp add: nonempty_def)
      next
        case nopara: False
        show ?thesis
        proof (cases "length (filter nonempty (map trim (js_split sent_match str))) > 1")
          case True
          let ?ss = "filter nonempty (map trim (filter nonempty (map trim (js_split sent_match str))))"
          have "\<exists>y. forceSplitTextRecursive_SYNC x target (depth + 1) = Some y \<and> ?R x y"
            if "x \<in> set ?ss" for x
            using "1.IH"(2) [OF ne d small nopara True that "1.prems"] by simp
          then obtain rs where rs: "those (map (\<lambda>sentence. forceSplitTextRecursive_SYNC sentence target (depth + 1)) ?ss) = Some rs"
            and all: "list_all2 ?R ?ss rs"
            using those_map_Some [of ?ss "\<lambda>sentence. forceSplitTextRecursive_SYNC sentence target (depth + 1)" ?R]
            by blast
          have res: "forceSplitTextRecursive_SYNC str target depth = Some (filter nonempty (concat rs))"
            using ne d nopara True rs by (subst forceSplitTextRecursive_SYNC.simps) (simp add: c)
          have "strip_ws (concat (concat rs)) = strip_ws (concat ?ss)"
            using all by (rule list_all2_coverage)
          also have "\<dots> = strip_ws str"
            by (simp add: strip_ws_concat_trimmed js_split_coverage [OF sent_match_ws])
          finally have "strip_ws (concat (filter nonempty (concat rs))) = strip_ws str"
            by (simp add: concat_filter_nonempty)
          then show ?thesis using res by (simp add: nonempty_def)
        next
          case nosent: False
          obtain w where w: "char_window_loop str target 0 [] = Some ([] @ w)"
            and cov: "strip_ws (concat w) = strip_ws (drop 0 str)"
            and wne: "\<forall>f \<in> set w. f \<noteq> []"
            using char_window_loop_result [OF "1.prems", of 0 str "[]"] by auto
          have res: "forceSplitTextRecursive_SYNC str target depth =
                Some (filter nonempty (if length w = 0 \<and> length str > 0 then w @ [str] else w))"
            using ne d nopara nosent w by (subst forceSplitTextRecursive_SYNC.simps) (simp add: c)
          show ?thesis
          proof (cases "w = []")
            case True
            then show ?thesis using res nonnil by (simp add: nonempty_def)
          next
            case False
            then show ?thesis using res cov wne by (simp add: concat_filter_nonempty nonempty_def)
          qed
        qed
      qed
    qed
  qed
qed


lemma char_window_loop_returns:
  "0 < target \<Longrightarrow> \<exists>r. char_window_loop str target pos results = Some r"
proof (cases "pos \<le> length str")
  case True
  assume "0 < target"
  then show ?thesis using char_window_loop_result [of target pos str results] True by blast
next
  case False
  then have "char_window_loop str target pos results = Some results"
    by (subst char_window_loop.simps) simp
  then show ?thesis by blast
qed

lemma forceSplit_beyond_depth_limit:
  "15 < depth \<Longrightarrow>
   forceSplitTextRecursive_SYNC str target depth = Some (if trim str = [] then [] else [str])"
  by (subst forceSplitTextRecursive_SYNC.simps) simp

text \<open>
  C3 (termination). For every string, every positive target and every depth,
  \<open>forceSplitTextRecursive_SYNC\<close> returns. The recursion is bounded by the depth limit: a
  call deeper than 15 returns at once, without a recursive call (and the function is
  defined by well-founded recursion on \<open>16 - depth\<close>). The character-window loop returns,
  from every cursor position, and each iteration moves the cursor strictly forward and
  never past the end, whether or not the string contains whitespace.
\<close>

theorem forceSplit_terminates:
  "(0 < target \<longrightarrow> (\<exists>r. forceSplitTextRecursive_SYNC str target depth = Some r)) \<and>
   (15 < deep \<longrightarrow>
      forceSplitTextRecursive_SYNC str2 target2 deep = Some (if trim str2 = [] then [] else [str2])) \<and>
   (0 < target \<longrightarrow> (\<exists>r. char_window_loop str target pos results = Some r)) \<and>
   (0 < target \<and> cur < length str \<longrightarrow>
      cur < next_split_point str target cur \<and> next_split_point str target cur \<le> length str)"
  using forceSplit_result [of target str depth] forceSplit_beyond_depth_limit [of deep str2 target2]
    char_window_loop_returns [of target str pos results] next_split_point_progress [of target cur str]
  by blast

theorem forceSplit_terminates_witness:
  "(\<exists>r. forceSplitTextRecursive_SYNC [97, 97, 32, 97, 97, 97, 32, 97] 3 0 = Some r) \<and>
   forceSplitTextRecursive_SYNC [97, 98] 0 16 = Some [[97, 98]] \<and>
   (\<exists>r. char_window_loop [97, 97, 32, 97, 97, 97, 32, 97] 3 0 [] = Some r) \<and>
   4 < next_split_point [97, 97, 32, 97, 97, 97, 32, 97] 3 4 \<and>
   next_split_point [97, 97, 32, 97, 97, 97, 32, 97] 3 4 \<le> 8"
  using forceSplit_terminates [of 3 "[97, 97, 32, 97, 97, 97, 32, 97]" 0 16 "[97, 98]" 0 0 "[]" 4]
  by (simp add: trim_def is_ws_def)

lemma find_space_back_none:
  "\<forall>c \<in> set str. \<not> is_ws c \<Longrightarrow> find_space_back str lo i = None"
proof (induction str lo i rule: find_space_back.induct)
  case (1 str currentPos i)
  show ?case
  proof (cases "i > currentPos")
    case False
    then show ?thesis by (simp add: find_space_back.simps)
  next
    case True
    have here: "\<not> (i < length str \<and> is_ws (str ! i))" using "1.prems" by auto
    then have "find_space_back str currentPos (i - 1) = None"
      using "1.IH" True "1.prems" by blast
    then show ?thesis using True here by (subst find_space_back.simps) simp
  qed
qed

lemma next_split_point_no_ws:
  assumes "\<forall>c \<in> set str. \<not> is_ws c" and "0 < target"
  shows "next_split_point str target pos = min (pos + target) (length str)"
proof (cases "min (pos + target) (length str) < length str")
  case False
  then show ?thesis by (simp add: next_split_point_def Let_def)
next
  case True
  then have e: "min (pos + target) (length str) = pos + target" by auto
  show ?thesis
    using True assms(2) find_space_back_none [OF assms(1)]
    by (simp add: next_split_point_def Let_def e)
qed

lemma trim_no_ws: "\<forall>c \<in> set s. \<not> is_ws c \<Longrightarrow> trim s = s"
proof -
  assume a: "\<forall>c \<in> set s. \<not> is_ws c"
  have d: "dropWhile is_ws xs = xs" if "\<forall>c \<in> set xs. \<not> is_ws c" for xs
    using that by (cases xs) simp_all
  have "dropWhile is_ws s = s" using a by (rule d)
  moreover have "dropWhile is_ws (rev s) = rev s" using a by (intro d) simp
  ultimately show ?thesis by (simp add: trim_def)
qed

lemma window_count:
  assumes "0 < target" and "pos < len"
  shows "Suc ((len - min (pos + target) len + target - 1) div target) = (len - pos + target - 1) div target"
proof (cases "pos + target \<le> len")
  case True
  have l: "len - min (pos + target) len + target - 1 = len - pos - 1"
    using True assms by (simp add: min_def)
  have r: "len - pos + target - 1 = (len - pos - 1) + target"
    using assms by simp
  show ?thesis
    unfolding l r using assms(1) div_add_self2 [of target "len - pos - 1"] by simp
next
  case False
  have l: "len - min (pos + target) len + target - 1 = target - 1"
    using False by (simp add: min_def)
  have r: "len - pos + target - 1 = (len - pos - 1) + target"
    using assms by simp
  have small: "len - pos - 1 < target" using False assms by simp
  show ?thesis
    unfolding l r using assms(1) small div_add_self2 [of target "len - pos - 1"] by simp
qed

lemma char_window_loop_no_ws:
  assumes nows: "\<forall>c \<in> set str. \<not> is_ws c" and pos: "0 < target" and le: "pos \<le> length str"
  shows "\<exists>r. char_window_loop str target pos results = Some (results @ r) \<and>
             length r = (length str - pos + target - 1) div target \<and>
             (\<forall>f \<in> set r. length f \<le> target \<and> f \<noteq> []) \<and> concat r = drop pos str"
  using le
proof (induction "length str - pos" arbitrary: pos results rule: less_induct)
  case less
  show ?case
  proof (cases "pos < length str")
    case False
    then have "char_window_loop str target pos results = Some (results @ [])"
      by (subst char_window_loop.simps) simp
    moreover have "(length str - pos + target - 1) div target = 0"
      using False pos by simp
    ultimately show ?thesis using False by auto
  next
    case True
    let ?sp = "min (pos + target) (length str)"
    let ?part = "take (?sp - pos) (drop pos str)"
    have sp: "next_split_point str target pos = ?sp"
      using nows pos by (rule next_split_point_no_ws)
    have lt: "pos < ?sp" "?sp \<le> length str" using True pos by auto
    have "substring str pos ?sp = ?part"
      using lt by (simp add: substring_take_drop)
    moreover have "\<forall>c \<in> set ?part. \<not> is_ws c"
      using nows by (meson in_set_dropD in_set_takeD)
    ultimately have tr: "trim (substring str pos ?sp) = ?part"
      by (simp add: trim_no_ws)
    have pne: "?part \<noteq> []" using lt True by simp
    have plen: "length ?part \<le> target" using lt by auto
    have step: "char_window_loop str target pos results =
                char_window_loop str target ?sp (results @ [?part])"
      using True pne by (subst char_window_loop.simps) (simp only: sp tr if_True not_False_eq_True simp_thms)
    have "length str - ?sp < length str - pos" using lt True by simp
    then obtain r where r: "char_window_loop str target ?sp (results @ [?part]) = Some ((results @ [?part]) @ r)"
      and n: "length r = (length str - ?sp + target - 1) div target"
      and b: "\<forall>f \<in> set r. length f \<le> target \<and> f \<noteq> []"
      and c: "concat r = drop ?sp str"
      using less.hyps [of ?sp "results @ [?part]"] lt by blast
    have "char_window_loop str target pos results = Some (results @ (?part # r))"
      using step r by simp
    moreover have "length (?part # r) = (length str - pos + target - 1) div target"
      using n window_count [OF pos True] by simp
    moreover have "\<forall>f \<in> set (?part # r). length f \<le> target \<and> f \<noteq> []"
      using b pne plen by simp
    moreover have "concat (?part # r) = drop pos str"
    proof -
      have "drop pos str = ?part @ drop ?sp str"
        using lt by (metis append_take_drop_id drop_drop le_add_diff_inverse2 less_imp_le_nat)
      then show ?thesis using c by simp
    qed
    ultimately show ?thesis by blast
  qed
qed

lemma split_loop_para_no_newline:
  "10 \<notin> set rest \<Longrightarrow> split_loop para_match prev piece rest = [piece @ rest]"
proof (induction rest arbitrary: prev piece)
  case Nil
  show ?case by (simp add: split_loop.simps)
next
  case (Cons c cs)
  then have "para_match prev (c # cs) = None"
    by (auto simp: para_match_def split: list.splits)
  then show ?case using Cons by (simp add: split_loop.simps)
qed

lemma backtrack_no_ws_head:
  "\<not> is_ws c \<Longrightarrow> backtrack (c # cs) 1 = None"
  by (simp add: backtrack_def)

lemma split_loop_sent_no_ws:
  "\<forall>c \<in> set rest. \<not> is_ws c \<Longrightarrow> prev \<noteq> Some 10 \<Longrightarrow>
   split_loop sent_match prev piece rest = [piece @ rest]"
proof (induction rest arbitrary: prev piece)
  case Nil
  show ?case by (simp add: split_loop.simps)
next
  case (Cons c cs)
  have c: "\<not> is_ws c" using Cons.prems by simp
  then have "c \<noteq> 10" by (auto simp: is_ws_def)
  have "sent_match prev (c # cs) = None"
    using Cons.prems(2) backtrack_no_ws_head [OF c]
    by (simp add: sent_match_def split: option.splits)
  then show ?case using Cons \<open>c \<noteq> 10\<close> by (simp add: split_loop.simps)
qed

lemma js_split_no_ws:
  assumes "\<forall>c \<in> set str. \<not> is_ws c"
  shows "js_split para_match str = [str]" and "js_split sent_match str = [str]"
proof -
  have "10 \<notin> set str" using assms by (auto simp: is_ws_def)
  then show "js_split para_match str = [str]"
    using split_loop_para_no_newline [of str None "[]"]
    by (simp add: js_split_def para_match_def)
  show "js_split sent_match str = [str]"
    using split_loop_sent_no_ws [of str None "[]"] assms
    by (simp add: js_split_def sent_match_def)
qed

lemma forceSplit_no_ws:
  assumes nows: "\<forall>c \<in> set str. \<not> is_ws c" and pos: "0 < target" and d: "depth \<le> 15"
    and big: "3 * target < 2 * length str"
  shows "\<exists>r. forceSplitTextRecursive_SYNC str target depth = Some r \<and>
             length r = (length str + target - 1) div target \<and>
             (\<forall>f \<in> set r. length f \<le> target) \<and> concat r = str"
proof -
  have ne: "str \<noteq> []" using big by auto
  have tr: "trim str = str" using nows by (rule trim_no_ws)
  obtain w where w: "char_window_loop str target 0 [] = Some ([] @ w)"
    and n: "length w = (length str - 0 + target - 1) div target"
    and b: "\<forall>f \<in> set w. length f \<le> target \<and> f \<noteq> []"
    and c: "concat w = drop 0 str"
    using char_window_loop_no_ws [OF nows pos, of 0 "[]"] by blast
  have wne: "w \<noteq> []" using c ne by auto
  have f: "filter nonempty w = w" using b by (simp add: nonempty_def filter_id_conv)
  have cnd: "(2 * length str \<le> 3 * target \<and> 0 < depth) = False" using big by simp
  have ns: "nonempty str" using ne by (simp add: nonempty_def)
  have "forceSplitTextRecursive_SYNC str target depth = Some w"
    using d ne wne w ns
    by (subst forceSplitTextRecursive_SYNC.simps)
       (simp add: tr cnd js_split_no_ws [OF nows] f)
  then show ?thesis using n b c by simp
qed

text \<open>
  C6 (character-window scenario). A string of 20000 code units without whitespace, split
  with the target 500 (at any depth up to the limit), gives exactly 40 fragments of at
  most 500 code units each, which joined give the string back. Sentence punctuation in
  the string makes no difference, since no sentence boundary exists without whitespace.
\<close>

theorem window_split_20000_by_500:
  assumes "length str = 20000" and "\<forall>c \<in> set str. \<not> is_ws c" and "depth \<le> 15"
  shows "\<exists>r. forceSplitTextRecursive_SYNC str 500 depth = Some r \<and>
             length r = 40 \<and> (\<forall>f \<in> set r. length f \<le> 500) \<and> concat r = str"
  using forceSplit_no_ws [OF assms(2), of 500 depth] assms(1,3) by simp

theorem window_split_20000_by_500_witness:
  "\<exists>r. forceSplitTextRecursive_SYNC (replicate 20000 97) 500 0 = Some r \<and>
       length r = 40 \<and> (\<forall>f \<in> set r. length f \<le> 500) \<and> concat r = replicate 20000 97"
proof (rule window_split_20000_by_500)
  show "length (replicate 20000 (97::nat)) = 20000" by simp
  show "\<forall>c \<in> set (replicate 20000 (97::nat)). \<not> is_ws c" by (simp add: is_ws_def)
  show "(0::nat) \<le> 15" by simp
qed

section \<open>The chunks of a run\<close>

lemma no_error_append [simp]: "no_error (a @ b) \<longleftrightarrow> no_error a \<and> no_error b"
  by (simp add: no_error_def)

lemma covers_append:
  "covers a x \<Longrightarrow> covers b y \<Longrightarrow> covers (a @ b) (x @ y)"
  by (simp add: covers_def)

text \<open>What one step of a loop adds to the list of chunks.\<close>

lemma subsegment_adds:
  "\<exists>new. finalAudiobookChunks (process_subsegment ai vp ttl base s sub) = finalAudiobookChunks s @ new \<and>
         (no_error new \<longrightarrow> covers new sub)"
proof (cases "trim sub = []")
  case True
  then have "strip_ws sub = []" by (simp add: trim_empty_strip)
  then have "covers [] sub" by (simp add: covers_def)
  then show ?thesis using True by (simp add: process_subsegment_def)
next
  case False
  obtain r o' where c: "countTokensForText ai vp sub (ost s) = (r, o')"
    by (cases "countTokensForText ai vp sub (ost s)")
  show ?thesis
  proof (cases r)
    case (Inl e)
    then show ?thesis
      using False c by (simp add: process_subsegment_def push_chunk_record no_error_def)
  next
    case (Inr n)
    then show ?thesis
      using False c by (simp add: process_subsegment_def push_chunk_record covers_def)
  qed
qed

lemma subsegments_add:
  "\<exists>new. finalAudiobookChunks (foldl (process_subsegment ai vp ttl base) s subs) =
           finalAudiobookChunks s @ new \<and>
         (no_error new \<longrightarrow> covers new (concat subs))"
proof (induction subs arbitrary: s)
  case Nil
  show ?case by (simp add: covers_def no_error_def)
next
  case (Cons sub subs)
  let ?s1 = "process_subsegment ai vp ttl base s sub"
  obtain n1 where n1: "finalAudiobookChunks ?s1 = finalAudiobookChunks s @ n1"
    and c1: "no_error n1 \<longrightarrow> covers n1 sub"
    using subsegment_adds [of ai vp ttl base s sub] by blast
  obtain n2 where n2: "finalAudiobookChunks (foldl (process_subsegment ai vp ttl base) ?s1 subs) =
                       finalAudiobookChunks ?s1 @ n2"
    and c2: "no_error n2 \<longrightarrow> covers n2 (concat subs)"
    using Cons.IH [of ?s1] by blast
  have "finalAudiobookChunks (foldl (process_subsegment ai vp ttl base) s (sub # subs)) =
        finalAudiobookChunks s @ (n1 @ n2)"
    using n1 n2 by simp
  moreover have "no_error (n1 @ n2) \<longrightarrow> covers (n1 @ n2) (concat (sub # subs))"
    using c1 c2 by (simp add: covers_append)
  ultimately show ?case by blast
qed

lemma fine_target_positive: "0 < FINE_GRAINED_RECURSIVE_CHAR_TARGET"
  by (simp add: FINE_GRAINED_RECURSIVE_CHAR_TARGET_def IDEAL_CHARS_PER_CHUNK_TARGET_def
        FINE_GRAINED_SPLIT_DIVISOR_def)

lemma candidate_adds:
  "\<exists>s' new. process_candidate ai vp ttl base s cand = Some s' \<and>
         finalAudiobookChunks s' = finalAudiobookChunks s @ new \<and>
         (no_error new \<longrightarrow> covers new cand)"
proof -
  obtain r o' where c: "countTokensForText ai vp cand (ost s) = (r, o')"
    by (cases "countTokensForText ai vp cand (ost s)")
  show ?thesis
  proof (cases r)
    case (Inl e)
    then show ?thesis
      using c by (simp add: process_candidate_def push_chunk_record no_error_def)
  next
    case (Inr n)
    show ?thesis
    proof (cases "n \<le> IDEAL_CHUNK_TOKEN_UPPER_BOUND")
      case True
      then show ?thesis
        using c Inr by (simp add: process_candidate_def push_chunk_record covers_def)
    next
      case False
      obtain subs where subs: "forceSplitTextRecursive_SYNC cand FINE_GRAINED_RECURSIVE_CHAR_TARGET 0 = Some subs"
        and cov: "strip_ws (concat subs) = strip_ws cand"
        using forceSplit_result [OF fine_target_positive, of cand 0] by blast
      let ?s' = "foldl (process_subsegment ai vp ttl base) (s\<lparr>ost := o'\<rparr>) subs"
      obtain new where new: "finalAudiobookChunks ?s' = finalAudiobookChunks (s\<lparr>ost := o'\<rparr>) @ new"
        and cn: "no_error new \<longrightarrow> covers new (concat subs)"
        using subsegments_add [of ai vp ttl base "s\<lparr>ost := o'\<rparr>" subs] by blast
      have "process_candidate ai vp ttl base s cand = Some ?s'"
        using c Inr False subs by (simp add: process_candidate_def)
      moreover have "finalAudiobookChunks ?s' = finalAudiobookChunks s @ new"
        using new by simp
      moreover have "no_error new \<longrightarrow> covers new cand"
        using cn cov by (simp add: covers_def)
      ultimately show ?thesis by blast
    qed
  qed
qed

lemma candidates_add:
  "\<exists>s' new. process_candidates ai vp ttl base s cands = Some s' \<and>
         finalAudiobookChunks s' = finalAudiobookChunks s @ new \<and>
         (no_error new \<longrightarrow> covers new (concat cands))"
proof (induction cands arbitrary: s)
  case Nil
  show ?case by (simp add: covers_def no_error_def)
next
  case (Cons cand cands)
  obtain s1 n1 where s1: "process_candidate ai vp ttl base s cand = Some s1"
    and n1: "finalAudiobookChunks s1 = finalAudiobookChunks s @ n1"
    and c1: "no_error n1 \<longrightarrow> covers n1 cand"
    using candidate_adds [of ai vp ttl base s cand] by blast
  obtain s2 n2 where s2: "process_candidates ai vp ttl base s1 cands = Some s2"
    and n2: "finalAudiobookChunks s2 = finalAudiobookChunks s1 @ n2"
    and c2: "no_error n2 \<longrightarrow> covers n2 (concat cands)"
    using Cons.IH [of s1] by blast
  have "process_candidates ai vp ttl base s (cand # cands) = Some s2"
    using s1 s2 by simp
  moreover have "finalAudiobookChunks s2 = finalAudiobookChunks s @ (n1 @ n2)"
    using n1 n2 by simp
  moreover have "no_error (n1 @ n2) \<longrightarrow> covers (n1 @ n2) (concat (cand # cands))"
    using c1 c2 by (simp add: covers_append)
  ultimately show ?case by blast
qed

lemma createAudiobookChunks_returns:
  "\<exists>res st. createAudiobookChunks translit input ai bfb vp = Some (res, st)"
proof (cases ai)
  case None
  then show ?thesis by (simp add: createAudiobookChunks_def)
next
  case (Some client)
  show ?thesis
  proof (cases "input_text_and_title input bfb")
    case None
    then show ?thesis using Some by (simp add: createAudiobookChunks_def)
  next
    case it: (Some p)
    obtain raw ttl where p: "p = (raw, ttl)" by (cases p)
    let ?cands = "aggregateParagraphsIntoChunks (splitTextIntoParagraphs (trim raw)) IDEAL_CHARS_PER_CHUNK_TARGET"
    obtain s' where "process_candidates client vp ttl (sanitizedFileNameBase translit ttl)
        \<lparr>finalAudiobookChunks = [], chunkIndex = 0, ost = \<lparr>calls = 0, sleeps = []\<rparr>\<rparr> ?cands = Some s'"
      using candidates_add by blast
    then show ?thesis
      using Some it p by (simp add: createAudiobookChunks_def Let_def)
  qed
qed

lemma createAudiobookChunks_covers:
  assumes run: "createAudiobookChunks translit input ai bfb vp = Some (Inr chunks, st)"
    and it: "input_text_and_title input bfb = Some (raw, ttl)"
    and ok: "no_error chunks"
  shows "covers chunks raw"
proof -
  obtain client where ai: "ai = Some client"
    using run by (cases ai) (auto simp: createAudiobookChunks_def)
  show ?thesis
  proof (cases "trim raw = []")
    case True
    then have "chunks = []" using run ai it by (simp add: createAudiobookChunks_def)
    moreover have "strip_ws raw = []" using True by (simp add: trim_empty_strip)
    ultimately show ?thesis by (simp add: covers_def)
  next
    case False
    let ?cands = "aggregateParagraphsIntoChunks (splitTextIntoParagraphs (trim raw)) IDEAL_CHARS_PER_CHUNK_TARGET"
    let ?s0 = "\<lparr>finalAudiobookChunks = [], chunkIndex = 0, ost = \<lparr>calls = 0, sleeps = []\<rparr>\<rparr>"
    have cne: "?cands \<noteq> []" using False by (rule candidates_nonempty)
    obtain s' new where s': "process_candidates client vp ttl (sanitizedFileNameBase translit ttl) ?s0 ?cands = Some s'"
      and new: "finalAudiobookChunks s' = finalAudiobookChunks ?s0 @ new"
      and cov: "no_error new \<longrightarrow> covers new (concat ?cands)"
      using candidates_add by blast
    have "chunks = new"
      using run ai it False cne s' new by (simp add: createAudiobookChunks_def Let_def)
    then have "covers chunks (concat ?cands)" using cov ok by simp
    moreover have "strip_ws (concat ?cands) = strip_ws raw"
      by (simp add: aggregate_coverage splitTextIntoParagraphs_coverage)
    ultimately show ?thesis by (simp add: covers_def)
  qed
qed


lemma denying_oracle_run:
  "createAudiobookChunks no_transliteration (Strings [[97]]) (Some denying_oracle) [66] [] =
     Some (Inr [\<lparr>index = 0,
                 chunkText = asc ''Error: Token counting failed. Snippet: a...'',
                 chapterTitle = Some [66],
                 fileName = asc ''B_Part_001_TOKEN_ERR.wav'',
                 status = Error, tokenCount = None,
                 errorDetails = Some (asc ''Token counting failed for this candidate chunk: denied'')\<rparr>],
           \<lparr>calls = 1, sleeps = []\<rparr>)"
proof -
  have den: "\<not> isServerError denied_error"
    by (simp add: isServerError_def denied_error_def asc_def)
  have c: "countTokensForText denying_oracle [] [97] \<lparr>calls = 0, sleeps = []\<rparr> =
             (Inl denied_error, \<lparr>calls = 1, sleeps = []\<rparr>)"
    using count_permanent_failure [of denying_oracle "\<lparr>calls = 0, sleeps = []\<rparr>" "[]" "[97]" denied_error] den
    by (simp add: denying_oracle_def)
  have t: "error_text denied_error = asc ''denied''"
    by (simp add: error_text_def denied_error_def)
  have sn: "error_snippet [97] = asc ''Error: Token counting failed. Snippet: a...''"
    by (simp add: error_snippet_def substring_def asc_def)
  show ?thesis
    by (simp add: createAudiobookChunks_def input_a trim_a split_a aggregate_a base_B
          process_candidate_def c t sn push_chunk_def part_001)
       (simp add: asc_def)
qed

section \<open>Aggregation of the paragraphs of its own output\<close>

lemma has_blank_line_append:
  "has_blank_line (xs @ ys) \<longleftrightarrow>
     has_blank_line xs \<or> has_blank_line ys \<or> (xs \<noteq> [] \<and> last xs = 10 \<and> ys \<noteq> [] \<and> hd ys = 10)"
proof (induction xs rule: has_blank_line.induct)
  case (1 a b r)
  then show ?case by auto
next
  case (2 a)
  show ?case by (cases ys) auto
next
  case 3
  show ?case by simp
qed

lemma has_blank_line_rev: "has_blank_line (rev s) = has_blank_line s"
proof (induction s)
  case Nil
  show ?case by simp
next
  case (Cons c s)
  have "has_blank_line (c # s) \<longleftrightarrow> has_blank_line s \<or> (c = 10 \<and> s \<noteq> [] \<and> hd s = 10)"
    using has_blank_line_append [of "[c]" s] by simp
  moreover have "has_blank_line (rev s @ [c]) \<longleftrightarrow>
      has_blank_line (rev s) \<or> (rev s \<noteq> [] \<and> last (rev s) = 10 \<and> c = 10)"
    using has_blank_line_append [of "rev s" "[c]"] by simp
  ultimately show ?case using Cons by (auto simp: last_rev)
qed

lemma has_blank_line_dropWhile: "has_blank_line (dropWhile P s) \<Longrightarrow> has_blank_line s"
  using has_blank_line_append [of "takeWhile P s" "dropWhile P s"] by simp

lemma has_blank_line_trim: "has_blank_line (trim s) \<Longrightarrow> has_blank_line s"
  unfolding trim_def has_blank_line_rev
  by (auto dest!: has_blank_line_dropWhile simp: has_blank_line_rev)

lemma dropWhile_keeps_last:
  "dropWhile P xs \<noteq> [] \<Longrightarrow> last (dropWhile P xs) = last xs"
  by (metis last_appendR takeWhile_dropWhile_id)

lemma trim_trimmed: "trim s \<noteq> [] \<Longrightarrow> trimmed (trim s)"
proof -
  assume ne: "trim s \<noteq> []"
  let ?u = "dropWhile is_ws s"
  let ?v = "dropWhile is_ws (rev ?u)"
  have t: "trim s = rev ?v" by (simp add: trim_def)
  have v: "?v \<noteq> []" using ne t by simp
  then have u: "?u \<noteq> []" by (metis dropWhile.simps(1) rev.simps(1))
  have "\<not> is_ws (hd ?v)" using v by (rule hd_dropWhile)
  then have l: "\<not> is_ws (last (rev ?v))" using v by (simp add: last_rev)
  have "last ?v = last (rev ?u)" using v by (rule dropWhile_keeps_last)
  also have "\<dots> = hd ?u" using u by (simp add: last_rev)
  finally have "hd (rev ?v) = hd ?u" using v by (simp add: hd_rev)
  moreover have "\<not> is_ws (hd ?u)" using u by (rule hd_dropWhile)
  ultimately show ?thesis using l v t by (simp add: trimmed_def)
qed

lemma trimmed_trim: "trimmed s \<Longrightarrow> trim s = s"
proof -
  assume t: "trimmed s"
  have d: "dropWhile is_ws xs = xs" if "xs \<noteq> []" "\<not> is_ws (hd xs)" for xs
    using that by (cases xs) simp_all
  have "dropWhile is_ws s = s" using t by (intro d) (simp_all add: trimmed_def)
  moreover have "dropWhile is_ws (rev s) = rev s"
    using t by (intro d) (simp_all add: trimmed_def hd_rev)
  ultimately show ?thesis by (simp add: trim_def)
qed

lemma trimmed_no_newline_ends: "trimmed s \<Longrightarrow> hd s \<noteq> 10 \<and> last s \<noteq> 10"
  by (auto simp: trimmed_def is_ws_def)

text \<open>The pieces that \<open>split\<close> cuts at blank lines contain no blank line.\<close>

lemma para_match_None:
  "para_match prev (c # cs) = None \<Longrightarrow> \<not> (c = 10 \<and> cs \<noteq> [] \<and> hd cs = 10)"
  by (cases cs) (auto simp: para_match_def)

lemma no_blank_line_step:
  assumes "\<not> has_blank_line (piece @ take 1 (c # cs))"
    and "\<not> (c = 10 \<and> cs \<noteq> [] \<and> hd cs = 10)"
  shows "\<not> has_blank_line ((piece @ [c]) @ take 1 cs)"
proof -
  have a: "\<not> has_blank_line (piece @ [c])" using assms(1) by simp
  have "\<not> has_blank_line (take 1 cs)" by (cases cs) simp_all
  then show ?thesis
    using a assms(2) has_blank_line_append [of "piece @ [c]" "take 1 cs"] by (cases cs) auto
qed

lemma no_blank_line_start: "\<not> has_blank_line ([] @ take 1 r)"
  by (cases r) simp_all

lemma split_loop_pieces_no_blank:
  "(\<And>prev c cs. m prev (c # cs) = None \<Longrightarrow> \<not> (c = 10 \<and> cs \<noteq> [] \<and> hd cs = 10)) \<Longrightarrow>
   (\<And>prev r. m prev r \<noteq> Some 0) \<Longrightarrow>
   \<not> has_blank_line (piece @ take 1 rest) \<Longrightarrow>
   \<forall>x \<in> set (split_loop m prev piece rest). \<not> has_blank_line x"
proof (induction m prev piece rest rule: split_loop.induct)
  case (1 m prev piece)
  then show ?case by (simp add: split_loop.simps)
next
  case (2 m prev piece c cs)
  have piece: "\<not> has_blank_line piece"
    using "2.prems"(3) by (simp add: has_blank_line_append)
  show ?case
  proof (cases "m prev (c # cs)")
    case None
    have "\<not> has_blank_line ((piece @ [c]) @ take 1 cs)"
      using "2.prems"(3) "2.prems"(1) [OF None] by (rule no_blank_line_step)
    then show ?thesis
      using "2.IH"(1) [OF None "2.prems"(1,2)] None by (simp add: split_loop.simps)
  next
    case (Some k)
    then have False: "k \<noteq> 0" using "2.prems"(2) [of prev "c # cs"] by auto
    then show ?thesis
      using "2.IH"(4) [OF Some False "2.prems"(1,2) no_blank_line_start] Some piece
      by (simp add: split_loop.simps)
  qed
qed

lemma para_match_not_0: "para_match prev r \<noteq> Some 0"
  using para_match_Some [of prev r 0] by auto

lemma splitTextIntoParagraphs_clean:
  "\<forall>p \<in> set (splitTextIntoParagraphs str). clean_paragraph p"
proof
  fix p assume "p \<in> set (splitTextIntoParagraphs str)"
  then obtain x where x: "x \<in> set (js_split para_match str)" and p: "p = trim x" and ne: "p \<noteq> []"
    by (auto simp: splitTextIntoParagraphs_def nonempty_def)
  have "\<forall>y \<in> set (split_loop para_match None [] str). \<not> has_blank_line y"
    using para_match_None para_match_not_0 no_blank_line_start by (rule split_loop_pieces_no_blank)
  then have "\<not> has_blank_line x"
    using x by (auto simp: js_split_def split: if_splits)
  then have "\<not> has_blank_line p" using p has_blank_line_trim by blast
  moreover have "trimmed p" using ne p trim_trimmed by blast
  ultimately show "clean_paragraph p" by (simp add: clean_paragraph_def)
qed


text \<open>Joining clean paragraphs by blank lines and splitting the result gives them back.\<close>

lemma foldl_join_append:
  "foldl (\<lambda>acc y. acc @ blank_line @ y) (a @ b) r = a @ foldl (\<lambda>acc y. acc @ blank_line @ y) b r"
  by (induction r arbitrary: b) simp_all

lemma join_blank_single [simp]: "join_blank [p] = p"
  by (simp add: join_blank_def)

lemma join_blank_Cons2: "join_blank (x # y # r) = x @ blank_line @ join_blank (y # r)"
  using foldl_join_append [of x "blank_line @ y" r] foldl_join_append [of "[]" "y" r]
    foldl_join_append [of "x @ blank_line" "y" r]
  by (simp add: join_blank_def)

lemma join_blank_snoc: "g \<noteq> [] \<Longrightarrow> join_blank (g @ [p]) = join_blank g @ blank_line @ p"
  by (cases g) (simp_all add: join_blank_def)

lemma join_blank_hd: "g \<noteq> [] \<Longrightarrow> hd g \<noteq> [] \<Longrightarrow> join_blank g \<noteq> [] \<and> hd (join_blank g) = hd (hd g)"
proof (cases g)
  case Nil
  assume "g \<noteq> []"
  then show ?thesis using Nil by simp
next
  case (Cons x r)
  assume "hd g \<noteq> []"
  then have x: "x \<noteq> []" using Cons by simp
  show ?thesis
  proof (cases r)
    case Nil
    then show ?thesis using Cons x by simp
  next
    case (Cons y r')
    then show ?thesis using \<open>g = x # r\<close> x by (simp add: join_blank_Cons2)
  qed
qed

lemma para_match_no_pair:
  "c \<noteq> 10 \<or> r = [] \<or> hd r \<noteq> 10 \<Longrightarrow> para_match prev (c # r) = None"
  by (cases r) (auto simp: para_match_def)

lemma split_loop_through_paragraph:
  "\<not> has_blank_line p \<Longrightarrow> (p \<noteq> [] \<longrightarrow> last p \<noteq> 10) \<Longrightarrow>
   split_loop para_match prev piece (p @ rest) =
     split_loop para_match (if p = [] then prev else Some (last p)) (piece @ p) rest"
proof (induction p arbitrary: prev piece)
  case Nil
  show ?case by simp
next
  case (Cons c cs)
  have nb: "\<not> has_blank_line cs"
    using Cons.prems(1) has_blank_line_append [of "[c]" cs] by simp
  have lst: "cs \<noteq> [] \<longrightarrow> last cs \<noteq> 10" using Cons.prems(2) by auto
  have "c \<noteq> 10 \<or> cs @ rest = [] \<or> hd (cs @ rest) \<noteq> 10"
  proof (cases cs)
    case Nil
    then show ?thesis using Cons.prems(2) by simp
  next
    case (Cons d ds)
    then show ?thesis using Cons.prems(1) by auto
  qed
  then have "para_match prev (c # cs @ rest) = None" by (rule para_match_no_pair)
  then have "split_loop para_match prev piece ((c # cs) @ rest) =
             split_loop para_match (Some c) (piece @ [c]) (cs @ rest)"
    by (simp add: split_loop.simps)
  also have "\<dots> = split_loop para_match (if cs = [] then Some c else Some (last cs))
                      ((piece @ [c]) @ cs) rest"
    using Cons.IH [OF nb lst] .
  finally show ?case by simp
qed

lemma split_loop_at_blank_line:
  assumes "s \<noteq> []" and "hd s \<noteq> 10"
  shows "split_loop para_match prev piece (blank_line @ s) =
           piece # split_loop para_match (Some 10) [] s"
proof -
  obtain c cs where s: "s = c # cs" using assms(1) by (cases s) auto
  have "para_match prev (10 # 10 # s) = Some 2"
    using assms(2) s by (simp add: para_match_def)
  then show ?thesis
    by (simp add: blank_line_def split_loop.simps numeral_2_eq_2)
qed

lemma split_loop_join:
  "g \<noteq> [] \<Longrightarrow> list_all clean_paragraph g \<Longrightarrow>
   split_loop para_match prev [] (join_blank g) = g"
proof (induction g arbitrary: prev rule: induct_list012)
  case 1
  then show ?case by simp
next
  case (2 p)
  then have c: "\<not> has_blank_line p" "p \<noteq> [] \<longrightarrow> last p \<noteq> 10"
    using trimmed_no_newline_ends [of p] by (simp_all add: clean_paragraph_def)
  show ?case
    using split_loop_through_paragraph [OF c, of prev "[]" "[]"] by (simp add: split_loop.simps)
next
  case (3 p q r)
  have cp: "\<not> has_blank_line p" "p \<noteq> [] \<longrightarrow> last p \<noteq> 10" and pne: "p \<noteq> []"
    using "3.prems"(2) trimmed_no_newline_ends [of p] by (simp_all add: clean_paragraph_def trimmed_def)
  have q: "q \<noteq> []" "hd q \<noteq> 10"
    using "3.prems"(2) trimmed_no_newline_ends [of q] by (simp_all add: clean_paragraph_def trimmed_def)
  have j: "join_blank (q # r) \<noteq> []" "hd (join_blank (q # r)) \<noteq> 10"
    using join_blank_hd [of "q # r"] q by simp_all
  have "split_loop para_match prev [] (join_blank (p # q # r)) =
        split_loop para_match prev [] (p @ (blank_line @ join_blank (q # r)))"
    by (simp add: join_blank_Cons2)
  also have "\<dots> = split_loop para_match (Some (last p)) ([] @ p) (blank_line @ join_blank (q # r))"
    using split_loop_through_paragraph [OF cp, of prev "[]"] pne by simp
  also have "\<dots> = p # split_loop para_match (Some 10) [] (join_blank (q # r))"
    using split_loop_at_blank_line [OF j] by simp
  also have "\<dots> = p # q # r"
    using "3.IH"(2) [of "Some 10"] "3.prems"(2) by simp
  finally show ?case .
qed

lemma split_join:
  assumes "g \<noteq> []" and "list_all clean_paragraph g"
  shows "splitTextIntoParagraphs (join_blank g) = g"
proof -
  have h: "hd g \<noteq> []" using assms by (cases g) (simp_all add: clean_paragraph_def trimmed_def)
  have ne: "join_blank g \<noteq> []" using join_blank_hd [OF assms(1) h] by simp
  have "js_split para_match (join_blank g) = g"
    using ne split_loop_join [OF assms] by (simp add: js_split_def)
  moreover have "map trim g = g"
    using assms(2) by (simp add: list_all_iff map_idI clean_paragraph_def trimmed_trim)
  moreover have "filter nonempty g = g"
    using assms(2) by (auto simp: list_all_iff filter_id_conv clean_paragraph_def trimmed_def nonempty_def)
  ultimately show ?thesis by (simp add: splitTextIntoParagraphs_def)
qed

text \<open>The chunks of the aggregator are groups of consecutive paragraphs joined by blank lines.\<close>

lemma agg_rest_groups:
  "list_all (\<lambda>p. p \<noteq> []) (g @ ps) \<Longrightarrow>
   \<exists>groups. agg_rest T (join_blank g) ps = map join_blank groups \<and>
            concat groups = g @ ps \<and> (\<forall>x \<in> set groups. x \<noteq> [])"
proof (induction ps arbitrary: g)
  case Nil
  show ?case
  proof (cases "g = []")
    case True
    then show ?thesis by (simp add: join_blank_def)
  next
    case False
    then have "join_blank g \<noteq> []"
      using join_blank_hd [of g] Nil by (cases g) simp_all
    then have "agg_rest T (join_blank g) [] = map join_blank [g]" by simp
    then show ?thesis using False by (metis append_Nil2 concat.simps list.set_cases list.inject neq_Nil_conv self_append_conv set_ConsD empty_iff list.set(1))
  qed
next
  case (Cons p ps)
  have pne: "p \<noteq> []" using Cons.prems by simp
  have tail: "list_all (\<lambda>p. p \<noteq> []) (g' @ ps)" if "set g' \<subseteq> set (g @ [p])" for g'
    using Cons.prems that by (auto simp: list_all_iff)
  show ?case
  proof (cases "g = []")
    case True
    show ?thesis
    proof (cases "T \<le> length p")
      case big: True
      obtain groups where gr: "agg_rest T (join_blank []) ps = map join_blank groups"
        "concat groups = [] @ ps" "\<forall>x \<in> set groups. x \<noteq> []"
        using Cons.IH [of "[]"] tail [of "[]"] by auto
      have "agg_rest T (join_blank g) (p # ps) = map join_blank ([p] # groups)"
        using True big gr(1) by (simp add: join_blank_def agg_rest_Cons_empty)
      moreover have "concat ([p] # groups) = g @ p # ps" using gr(2) True by simp
      ultimately show ?thesis using gr(3) by (metis list.distinct(1) set_ConsD)
    next
      case small: False
      obtain groups where gr: "agg_rest T (join_blank [p]) ps = map join_blank groups"
        "concat groups = [p] @ ps" "\<forall>x \<in> set groups. x \<noteq> []"
        using Cons.IH [of "[p]"] tail [of "[p]"] by auto
      have "agg_rest T (join_blank g) (p # ps) = map join_blank groups"
        using True small gr(1) by (simp add: join_blank_def agg_rest_Cons_empty)
      then show ?thesis using gr(2,3) True by auto
    qed
  next
    case False
    then have bne: "join_blank g \<noteq> []"
      using join_blank_hd [of g] Cons.prems by (cases g) simp_all
    show ?thesis
    proof (cases "length (join_blank g) + 2 + length p > T")
      case flush: True
      obtain groups where gr: "agg_rest T (join_blank [p]) ps = map join_blank groups"
        "concat groups = [p] @ ps" "\<forall>x \<in> set groups. x \<noteq> []"
        using Cons.IH [of "[p]"] tail [of "[p]"] by auto
      have "agg_rest T (join_blank g) (p # ps) = map join_blank (g # groups)"
        using flush gr(1) by (simp add: agg_rest_Cons_nonempty [OF bne])
      moreover have "concat (g # groups) = g @ p # ps" using gr(2) by simp
      ultimately show ?thesis using gr(3) False by (metis set_ConsD)
    next
      case keep: False
      obtain groups where gr: "agg_rest T (join_blank (g @ [p])) ps = map join_blank groups"
        "concat groups = (g @ [p]) @ ps" "\<forall>x \<in> set groups. x \<noteq> []"
        using Cons.IH [of "g @ [p]"] tail [of "g @ [p]"] by auto
      have "agg_rest T (join_blank g) (p # ps) = map join_blank groups"
        using keep gr(1) by (simp add: agg_rest_Cons_nonempty [OF bne] join_blank_snoc [OF False])
      then show ?thesis using gr(2,3) by auto
    qed
  qed
qed

lemma resplit_groups:
  "list_all clean_paragraph (concat groups) \<Longrightarrow> \<forall>x \<in> set groups. x \<noteq> [] \<Longrightarrow>
   resplit (map join_blank groups) = concat groups"
proof (induction groups)
  case Nil
  show ?case by (simp add: resplit_def)
next
  case (Cons g groups)
  have "splitTextIntoParagraphs (join_blank g) = g"
    using Cons.prems by (intro split_join) simp_all
  moreover have "resplit (map join_blank groups) = concat groups"
    using Cons by simp
  ultimately show ?case by (simp add: resplit_def)
qed

lemma resplit_aggregate:
  assumes "list_all clean_paragraph ps"
  shows "resplit (aggregateParagraphsIntoChunks ps T) = ps"
proof -
  have "list_all (\<lambda>p. p \<noteq> []) ([] @ ps)"
    using assms by (auto simp: list_all_iff clean_paragraph_def trimmed_def)
  then obtain groups where gr: "agg_rest T (join_blank []) ps = map join_blank groups"
    "concat groups = [] @ ps" "\<forall>x \<in> set groups. x \<noteq> []"
    using agg_rest_groups [of "[]" ps T] by blast
  have "join_blank [] = []" by (simp add: join_blank_def)
  then have "aggregateParagraphsIntoChunks ps T = map join_blank groups"
    using gr(1) by (simp add: aggregate_agg_rest)
  then show ?thesis
    using resplit_groups [of groups] gr(2,3) assms by simp
qed


text \<open>
  A string with a blank line inside is not a paragraph: \<open>splitTextIntoParagraphs\<close> never
  returns one, and it would be split in two when the chunk is split back.
\<close>

lemma blank_line_inside_is_split:
  "\<not> clean_paragraph [97, 10, 10, 98] \<and>
   aggregateParagraphsIntoChunks [[97, 10, 10, 98]] 3 = [[97, 10, 10, 98]] \<and>
   resplit [[97, 10, 10, 98]] = [[97], [98]]"
proof -
  have a: "aggregateParagraphsIntoChunks [[97, 10, 10, 98]] 3 = [[97, 10, 10, 98]]"
    by (simp add: aggregateParagraphsIntoChunks_def agg_step_def)
  have t: "trim [97] = [97]" "trim [98] = [98]"
    by (simp_all add: trim_def is_ws_def)
  have r: "resplit [[97, 10, 10, 98]] = [[97], [98]]"
    by (simp add: resplit_def splitTextIntoParagraphs_def js_split_def split_loop.simps
          para_match_def t nonempty_def)
  have c: "\<not> clean_paragraph [97, 10, 10, 98]"
    by (simp add: clean_paragraph_def)
  show ?thesis by (simp only: a r c simp_thms)
qed

text \<open>
  C10 (idempotence of aggregation). A paragraph list is what \<open>splitTextIntoParagraphs\<close>
  returns, the only lists that \<open>aggregateParagraphsIntoChunks\<close> is called on: paragraphs
  that are not empty, without whitespace at either end and without two line feeds in a
  row. For the paragraph list of every text, and for every list of such paragraphs, and
  every target, splitting the chunks of \<open>aggregateParagraphsIntoChunks\<close> back into
  paragraphs gives the same paragraphs, and aggregating them again with the same target
  gives exactly the same chunks.
\<close>

theorem aggregate_idempotence:
  "list_all clean_paragraph (splitTextIntoParagraphs str) \<and>
   resplit (aggregateParagraphsIntoChunks (splitTextIntoParagraphs str) charTarget) =
     splitTextIntoParagraphs str \<and>
   aggregateParagraphsIntoChunks
       (resplit (aggregateParagraphsIntoChunks (splitTextIntoParagraphs str) charTarget)) charTarget
     = aggregateParagraphsIntoChunks (splitTextIntoParagraphs str) charTarget \<and>
   (list_all clean_paragraph ps \<longrightarrow>
      resplit (aggregateParagraphsIntoChunks ps charTarget) = ps \<and>
      aggregateParagraphsIntoChunks (resplit (aggregateParagraphsIntoChunks ps charTarget)) charTarget
        = aggregateParagraphsIntoChunks ps charTarget)"
proof -
  have c: "list_all clean_paragraph (splitTextIntoParagraphs str)"
    using splitTextIntoParagraphs_clean [of str] by (simp add: list_all_iff)
  show ?thesis
    using c resplit_aggregate [OF c, of charTarget] resplit_aggregate [of ps charTarget]
    by simp
qed

theorem aggregate_idempotence_witness:
  "splitTextIntoParagraphs [97, 10, 10, 98, 10, 10, 10, 99] = [[97], [98], [99]] \<and>
   list_all clean_paragraph [[97], [98], [99]] \<and>
   aggregateParagraphsIntoChunks [[97], [98], [99]] 4 = [[97, 10, 10, 98], [99]] \<and>
   resplit (aggregateParagraphsIntoChunks [[97], [98], [99]] 4) = [[97], [98], [99]] \<and>
   aggregateParagraphsIntoChunks (resplit (aggregateParagraphsIntoChunks [[97], [98], [99]] 4)) 4
     = [[97, 10, 10, 98], [99]]"
proof -
  have c: "list_all clean_paragraph [[97], [98], [99]]"
    by (simp add: clean_paragraph_def trimmed_def is_ws_def)
  have a: "aggregateParagraphsIntoChunks [[97], [98], [99]] 4 = [[97, 10, 10, 98], [99]]"
    by (simp add: aggregateParagraphsIntoChunks_def agg_step_def blank_line_def)
  have t: "trim [97] = [97]" "trim [98] = [98]" "trim [99] = [99]"
    by (simp_all add: trim_def is_ws_def)
  have p: "splitTextIntoParagraphs [97, 10, 10, 98, 10, 10, 10, 99] = [[97], [98], [99]]"
    by (simp add: splitTextIntoParagraphs_def js_split_def split_loop.simps para_match_def t
          nonempty_def)
  show ?thesis
    using aggregate_idempotence [of "[97, 10, 10, 98, 10, 10, 10, 99]" 4 "[[97], [98], [99]]"] c a p
    by simp
qed

section \<open>A target of zero\<close>

text \<open>
  The positive target is needed: with the target \<open>0\<close> the cursor of the character-window
  loop does not move, and the loop, and with it the splitter, does not return.
\<close>

lemma next_split_point_zero:
  "pos < length str \<Longrightarrow> next_split_point str 0 pos = pos"
  by (simp add: next_split_point_def find_space_back.simps [of str pos pos])

lemma char_window_loop_zero_stuck:
  assumes "char_window_loop str target pos results = Some y"
  shows "\<not> (target = 0 \<and> pos < length str)"
proof (rule char_window_loop.raw_induct
         [where P = "\<lambda>s t p r y. \<not> (t = 0 \<and> p < length s)", OF _ assms])
  fix loop :: "jsstring \<Rightarrow> nat \<Rightarrow> nat \<Rightarrow> jsstring list \<Rightarrow> jsstring list option"
  fix s t p r y
  assume IH: "\<And>s t p r y. loop s t p r = Some y \<Longrightarrow> \<not> (t = 0 \<and> p < length s)"
  assume body: "(if p < length s
      then loop s t (next_split_point s t p)
             (if trim (substring s p (next_split_point s t p)) \<noteq> []
              then r @ [trim (substring s p (next_split_point s t p))] else r)
      else Some r) = Some y"
  show "\<not> (t = 0 \<and> p < length s)"
  proof
    assume z: "t = 0 \<and> p < length s"
    then have t0: "t = 0" and lt: "p < length s" by simp_all
    have n: "next_split_point s 0 p = p"
      using lt by (rule next_split_point_zero)
    have "loop s t p (if trim (substring s p p) \<noteq> [] then r @ [trim (substring s p p)] else r) = Some y"
      using body lt unfolding t0 n by simp
    then have "\<not> (t = 0 \<and> p < length s)" by (rule IH)
    then show False using z by simp
  qed
qed

lemma char_window_loop_zero_target:
  "pos < length str \<Longrightarrow> char_window_loop str 0 pos results = None"
  using char_window_loop_zero_stuck [of str 0 pos results] by (cases "char_window_loop str 0 pos results") auto

lemma forceSplit_zero_target_diverges:
  "forceSplitTextRecursive_SYNC [97] 0 0 = None"
proof -
  have p: "js_split para_match [97] = [[97]]"
    by (simp add: js_split_def split_loop.simps para_match_def)
  have q: "js_split sent_match [97] = [[97]]"
    by (simp add: js_split_def split_loop.simps sent_match_def)
  have w: "char_window_loop [97] 0 0 [] = None"
    by (rule char_window_loop_zero_target) simp
  show ?thesis
    by (subst forceSplitTextRecursive_SYNC.simps) (simp add: trim_a p q w nonempty_def)
qed

section \<open>The outcome of a token count\<close>

lemma count_first_success:
  assumes "ai (calls st) (fullTextToCount vp t) = Inr n"
  shows "countTokensForText ai vp t st = (Inr n, \<lparr>calls = calls st + 1, sleeps = sleeps st\<rparr>)"
  using countTokens_loop_success [of 0 ai st vp t n ThrownNull] assms
  by (simp add: countTokensForText_def)

lemma count_second_success:
  assumes "ai (calls st) (fullTextToCount vp t) = Inl e1" "isServerError e1"
    and "ai (calls st + 1) (fullTextToCount vp t) = Inr n"
  shows "countTokensForText ai vp t st =
           (Inr n, \<lparr>calls = calls st + 2, sleeps = sleeps st @ [1000]\<rparr>)"
proof -
  let ?s1 = "\<lparr>calls = calls st + 1, sleeps = sleeps st\<rparr>"
  have "countTokensForText ai vp t st = countTokens_loop ai vp t 1 e1 ?s1"
    using countTokens_loop_retry [of 0 ai st vp t e1 ThrownNull] assms(1,2)
    by (simp add: countTokensForText_def)
  also have "\<dots> = (Inr n, \<lparr>calls = calls st + 2, sleeps = sleeps st @ [1000]\<rparr>)"
    using countTokens_loop_success [of 1 ai ?s1 vp t n e1] assms(3) by (simp add: numeral_2_eq_2)
  finally show ?thesis .
qed

lemma count_second_permanent_failure:
  assumes "ai (calls st) (fullTextToCount vp t) = Inl e1" "isServerError e1"
    and "ai (calls st + 1) (fullTextToCount vp t) = Inl e2" "\<not> isServerError e2"
  shows "countTokensForText ai vp t st =
           (Inl e2, \<lparr>calls = calls st + 2, sleeps = sleeps st @ [1000]\<rparr>)"
proof -
  let ?s1 = "\<lparr>calls = calls st + 1, sleeps = sleeps st\<rparr>"
  have "countTokensForText ai vp t st = countTokens_loop ai vp t 1 e1 ?s1"
    using countTokens_loop_retry [of 0 ai st vp t e1 ThrownNull] assms(1,2)
    by (simp add: countTokensForText_def)
  also have "\<dots> = (Inl e2, \<lparr>calls = calls st + 2, sleeps = sleeps st @ [1000]\<rparr>)"
    using countTokens_loop_final_error [of 1 ai ?s1 vp t e2 e1] assms(3,4) by (simp add: numeral_2_eq_2)
  finally show ?thesis .
qed

lemma candidate_count_failed:
  assumes "countTokensForText ai vp c (ost s) = (Inl e, o')"
  shows "process_candidate ai vp ttl base s c =
      Some \<lparr>finalAudiobookChunks = finalAudiobookChunks s @
               [\<lparr>index = chunkIndex s, chunkText = error_snippet c, chapterTitle = Some ttl,
                 fileName = part_file_name base (chunkIndex s + 1) (asc ''_TOKEN_ERR''),
                 status = Error, tokenCount = None,
                 errorDetails = Some (asc ''Token counting failed for this candidate chunk: ''
                                      @ error_text e)\<rparr>],
             chunkIndex = chunkIndex s + 1, ost = o'\<rparr>"
  by (simp add: process_candidate_def assms push_chunk_record)

lemma candidate_count_within_bound:
  assumes "countTokensForText ai vp c (ost s) = (Inr n, o')" and "n \<le> IDEAL_CHUNK_TOKEN_UPPER_BOUND"
  shows "process_candidate ai vp ttl base s c =
      Some \<lparr>finalAudiobookChunks = finalAudiobookChunks s @
               [\<lparr>index = chunkIndex s, chunkText = c, chapterTitle = Some ttl,
                 fileName = part_file_name base (chunkIndex s + 1) [],
                 status = Pending, tokenCount = Some n, errorDetails = None\<rparr>],
             chunkIndex = chunkIndex s + 1, ost = o'\<rparr>"
  using assms by (simp add: process_candidate_def push_chunk_record)

text \<open>
  C7 (retry semantics). The outcome of one call of \<open>countTokensForText\<close>, for every oracle,
  is fixed by the answers of the oracle to the first, second and third request of the call
  (\<open>answer \<dots> 0\<close>, \<open>answer \<dots> 1\<close>, \<open>answer \<dots> 2\<close>):
  \<^item> the first answer is a count: that count, after one request and no wait;
  \<^item> the first answer is a failure that is not a server error: that failure, at once,
    without a retry;
  \<^item> a server error, then a count: that count, after one retry and a wait of 1000 ms;
  \<^item> a server error, then a failure that is not a server error: that failure, after one
    retry;
  \<^item> two server errors, then a count: that count, after exactly two retries and waits of
    1000 ms and 2000 ms;
  \<^item> two server errors, then a failure of any kind: that failure; there is no third
    retry.
  So there are at least one and at most three requests, the second after 1000 ms and the
  third after 2000 ms more. Whenever the count of a candidate fails, the candidate becomes
  exactly one chunk in error status whose details carry the text of the failure, and
  nothing else is done with the candidate (no split, no further request); whenever the
  count succeeds within the ideal bound, at the first request or after retries, the
  candidate becomes a pending chunk with its own text and no error.
\<close>

theorem retry_semantics:
  "(answer ai vp c (ost s) 0 = Inr n \<longrightarrow>
      countTokensForText ai vp c (ost s) =
        (Inr n, \<lparr>calls = calls (ost s) + 1, sleeps = sleeps (ost s)\<rparr>)) \<and>
   (answer ai vp c (ost s) 0 = Inl e \<and> \<not> isServerError e \<longrightarrow>
      countTokensForText ai vp c (ost s) =
        (Inl e, \<lparr>calls = calls (ost s) + 1, sleeps = sleeps (ost s)\<rparr>)) \<and>
   (answer ai vp c (ost s) 0 = Inl e1 \<and> isServerError e1 \<and> answer ai vp c (ost s) 1 = Inr n \<longrightarrow>
      countTokensForText ai vp c (ost s) =
        (Inr n, \<lparr>calls = calls (ost s) + 2, sleeps = sleeps (ost s) @ [1000]\<rparr>)) \<and>
   (answer ai vp c (ost s) 0 = Inl e1 \<and> isServerError e1 \<and> answer ai vp c (ost s) 1 = Inl e \<and> \<not> isServerError e \<longrightarrow>
      countTokensForText ai vp c (ost s) =
        (Inl e, \<lparr>calls = calls (ost s) + 2, sleeps = sleeps (ost s) @ [1000]\<rparr>)) \<and>
   (answer ai vp c (ost s) 0 = Inl e1 \<and> isServerError e1 \<and> answer ai vp c (ost s) 1 = Inl e2 \<and> isServerError e2 \<and> answer ai vp c (ost s) 2 = Inr n \<longrightarrow>
      countTokensForText ai vp c (ost s) =
        (Inr n, \<lparr>calls = calls (ost s) + 3, sleeps = sleeps (ost s) @ [1000, 2000]\<rparr>)) \<and>
   (answer ai vp c (ost s) 0 = Inl e1 \<and> isServerError e1 \<and> answer ai vp c (ost s) 1 = Inl e2 \<and> isServerError e2 \<and> answer ai vp c (ost s) 2 = Inl e \<longrightarrow>
      countTokensForText ai vp c (ost s) =
        (Inl e, \<lparr>calls = calls (ost s) + 3, sleeps = sleeps (ost s) @ [1000, 2000]\<rparr>)) \<and>
   (calls (ost s) < calls (snd (countTokensForText ai vp c (ost s))) \<and>
    calls (snd (countTokensForText ai vp c (ost s))) \<le> calls (ost s) + 3 \<and>
    sleeps (snd (countTokensForText ai vp c (ost s))) =
      sleeps (ost s) @ take (calls (snd (countTokensForText ai vp c (ost s))) - calls (ost s) - 1)
                         [1000, 2000]) \<and>
   (countTokensForText ai vp c (ost s) = (Inl e, o') \<longrightarrow>
      process_candidate ai vp ttl base s c =
        Some \<lparr>finalAudiobookChunks = finalAudiobookChunks s @
                 [\<lparr>index = chunkIndex s, chunkText = error_snippet c, chapterTitle = Some ttl,
                   fileName = part_file_name base (chunkIndex s + 1) (asc ''_TOKEN_ERR''),
                   status = Error, tokenCount = None,
                   errorDetails = Some (asc ''Token counting failed for this candidate chunk: ''
                                        @ error_text e)\<rparr>],
               chunkIndex = chunkIndex s + 1, ost = o'\<rparr>) \<and>
   (countTokensForText ai vp c (ost s) = (Inr n, o') \<and> n \<le> IDEAL_CHUNK_TOKEN_UPPER_BOUND \<longrightarrow>
      process_candidate ai vp ttl base s c =
        Some \<lparr>finalAudiobookChunks = finalAudiobookChunks s @
                 [\<lparr>index = chunkIndex s, chunkText = c, chapterTitle = Some ttl,
                   fileName = part_file_name base (chunkIndex s + 1) [],
                   status = Pending, tokenCount = Some n, errorDetails = None\<rparr>],
               chunkIndex = chunkIndex s + 1, ost = o'\<rparr>)"
proof (intro conjI impI)
  assume "answer ai vp c (ost s) 0 = Inr n"
  then show "countTokensForText ai vp c (ost s) =
        (Inr n, \<lparr>calls = calls (ost s) + 1, sleeps = sleeps (ost s)\<rparr>)"
    using count_first_success [of ai "ost s" vp c n] by (simp add: answer_def)
next
  assume "answer ai vp c (ost s) 0 = Inl e \<and> \<not> isServerError e"
  then show "countTokensForText ai vp c (ost s) =
        (Inl e, \<lparr>calls = calls (ost s) + 1, sleeps = sleeps (ost s)\<rparr>)"
    using count_permanent_failure [of ai "ost s" vp c e] by (simp add: answer_def)
next
  assume "answer ai vp c (ost s) 0 = Inl e1 \<and> isServerError e1 \<and> answer ai vp c (ost s) 1 = Inr n"
  then show "countTokensForText ai vp c (ost s) =
        (Inr n, \<lparr>calls = calls (ost s) + 2, sleeps = sleeps (ost s) @ [1000]\<rparr>)"
    using count_second_success [of ai "ost s" vp c e1 n] by (simp add: answer_def)
next
  assume "answer ai vp c (ost s) 0 = Inl e1 \<and> isServerError e1 \<and>
          answer ai vp c (ost s) 1 = Inl e \<and> \<not> isServerError e"
  then show "countTokensForText ai vp c (ost s) =
        (Inl e, \<lparr>calls = calls (ost s) + 2, sleeps = sleeps (ost s) @ [1000]\<rparr>)"
    using count_second_permanent_failure [of ai "ost s" vp c e1 e] by (simp add: answer_def)
next
  assume "answer ai vp c (ost s) 0 = Inl e1 \<and> isServerError e1 \<and>
          answer ai vp c (ost s) 1 = Inl e2 \<and> isServerError e2 \<and> answer ai vp c (ost s) 2 = Inr n"
  then show "countTokensForText ai vp c (ost s) =
        (Inr n, \<lparr>calls = calls (ost s) + 3, sleeps = sleeps (ost s) @ [1000, 2000]\<rparr>)"
    using count_fail_fail_success [of ai "ost s" vp c e1 e2 n] by (simp add: answer_def)
next
  assume "answer ai vp c (ost s) 0 = Inl e1 \<and> isServerError e1 \<and>
          answer ai vp c (ost s) 1 = Inl e2 \<and> isServerError e2 \<and> answer ai vp c (ost s) 2 = Inl e"
  then show "countTokensForText ai vp c (ost s) =
        (Inl e, \<lparr>calls = calls (ost s) + 3, sleeps = sleeps (ost s) @ [1000, 2000]\<rparr>)"
    using count_retries_exhausted [of ai "ost s" vp c e1 e2 e] by (simp add: answer_def)
next
  show "calls (ost s) < calls (snd (countTokensForText ai vp c (ost s)))"
    and "calls (snd (countTokensForText ai vp c (ost s))) \<le> calls (ost s) + 3"
    and "sleeps (snd (countTokensForText ai vp c (ost s))) =
      sleeps (ost s) @ take (calls (snd (countTokensForText ai vp c (ost s))) - calls (ost s) - 1)
                         [1000, 2000]"
    using countTokensForText_bounded [of "ost s" ai vp c] by simp_all
next
  assume "countTokensForText ai vp c (ost s) = (Inl e, o')"
  then show "process_candidate ai vp ttl base s c =
        Some \<lparr>finalAudiobookChunks = finalAudiobookChunks s @
                 [\<lparr>index = chunkIndex s, chunkText = error_snippet c, chapterTitle = Some ttl,
                   fileName = part_file_name base (chunkIndex s + 1) (asc ''_TOKEN_ERR''),
                   status = Error, tokenCount = None,
                   errorDetails = Some (asc ''Token counting failed for this candidate chunk: ''
                                        @ error_text e)\<rparr>],
               chunkIndex = chunkIndex s + 1, ost = o'\<rparr>"
    by (rule candidate_count_failed)
next
  assume "countTokensForText ai vp c (ost s) = (Inr n, o') \<and> n \<le> IDEAL_CHUNK_TOKEN_UPPER_BOUND"
  then show "process_candidate ai vp ttl base s c =
        Some \<lparr>finalAudiobookChunks = finalAudiobookChunks s @
                 [\<lparr>index = chunkIndex s, chunkText = c, chapterTitle = Some ttl,
                   fileName = part_file_name base (chunkIndex s + 1) [],
                   status = Pending, tokenCount = Some n, errorDetails = None\<rparr>],
               chunkIndex = chunkIndex s + 1, ost = o'\<rparr>"
    using candidate_count_within_bound [of ai vp c s n o' ttl base] by simp
qed

theorem retry_semantics_witness:
  "isServerError server_error \<and> \<not> isServerError denied_error \<and>
   countTokensForText small_oracle [] [97] (ost state0) = (Inr 10, \<lparr>calls = 1, sleeps = []\<rparr>) \<and>
   countTokensForText denying_oracle [] [97] (ost state0) =
     (Inl denied_error, \<lparr>calls = 1, sleeps = []\<rparr>) \<and>
   countTokensForText recovering_oracle [] [97] (ost state0) =
     (Inr 10, \<lparr>calls = 2, sleeps = [1000]\<rparr>) \<and>
   countTokensForText failing_then_denying_oracle [] [97] (ost state0) =
     (Inl denied_error, \<lparr>calls = 2, sleeps = [1000]\<rparr>) \<and>
   countTokensForText flaky_oracle [] [97] (ost state0) =
     (Inr 10, \<lparr>calls = 3, sleeps = [1000, 2000]\<rparr>) \<and>
   countTokensForText down_oracle [] [97] (ost state0) =
     (Inl server_error, \<lparr>calls = 3, sleeps = [1000, 2000]\<rparr>) \<and>
   process_candidate flaky_oracle [] [84] [66] state0 [97] =
     Some \<lparr>finalAudiobookChunks =
              [\<lparr>index = 0, chunkText = [97], chapterTitle = Some [84],
                fileName = part_file_name [66] 1 [],
                status = Pending, tokenCount = Some 10, errorDetails = None\<rparr>],
            chunkIndex = 1, ost = \<lparr>calls = 3, sleeps = [1000, 2000]\<rparr>\<rparr> \<and>
   process_candidate failing_then_denying_oracle [] [84] [66] state0 [97] =
     Some \<lparr>finalAudiobookChunks =
              [\<lparr>index = 0, chunkText = error_snippet [97], chapterTitle = Some [84],
                fileName = part_file_name [66] 1 (asc ''_TOKEN_ERR''),
                status = Error, tokenCount = None,
                errorDetails = Some (asc ''Token counting failed for this candidate chunk: ''
                                     @ asc ''denied'')\<rparr>],
            chunkIndex = 1, ost = \<lparr>calls = 2, sleeps = [1000]\<rparr>\<rparr>"
proof -
  have srv: "isServerError server_error"
    by (simp add: isServerError_def server_error_def asc_def)
  have den: "\<not> isServerError denied_error"
    by (simp add: isServerError_def denied_error_def asc_def)
  have bound: "(10::nat) \<le> IDEAL_CHUNK_TOKEN_UPPER_BOUND"
    by (simp add: IDEAL_CHUNK_TOKEN_UPPER_BOUND_def IDEAL_TOKENS_PER_CHUNK_def)
  have t1: "error_text denied_error = asc ''denied''"
    by (simp add: error_text_def denied_error_def)
  have c1: "countTokensForText small_oracle [] [97] (ost state0) = (Inr 10, \<lparr>calls = 1, sleeps = []\<rparr>)"
    using retry_semantics [of small_oracle "[]" "[97]" state0 10]
    by (simp add: answer_def small_oracle_def state0_def)
  have c2: "countTokensForText denying_oracle [] [97] (ost state0) =
     (Inl denied_error, \<lparr>calls = 1, sleeps = []\<rparr>)"
    using retry_semantics [of denying_oracle "[]" "[97]" state0 _ denied_error] den
    by (simp add: answer_def denying_oracle_def state0_def)
  have c3: "countTokensForText recovering_oracle [] [97] (ost state0) =
     (Inr 10, \<lparr>calls = 2, sleeps = [1000]\<rparr>)"
    using retry_semantics [of recovering_oracle "[]" "[97]" state0 10 _ server_error] srv
    by (simp add: answer_def recovering_oracle_def state0_def)
  have c4: "countTokensForText failing_then_denying_oracle [] [97] (ost state0) =
     (Inl denied_error, \<lparr>calls = 2, sleeps = [1000]\<rparr>)"
    using retry_semantics [of failing_then_denying_oracle "[]" "[97]" state0 _ denied_error server_error]
      srv den
    by (simp add: answer_def failing_then_denying_oracle_def state0_def)
  have c5: "countTokensForText flaky_oracle [] [97] (ost state0) =
     (Inr 10, \<lparr>calls = 3, sleeps = [1000, 2000]\<rparr>)"
    using retry_semantics [of flaky_oracle "[]" "[97]" state0 10 _ server_error server_error] srv
    by (simp add: answer_def flaky_oracle_def state0_def)
  have c6: "countTokensForText down_oracle [] [97] (ost state0) =
     (Inl server_error, \<lparr>calls = 3, sleeps = [1000, 2000]\<rparr>)"
    using retry_semantics [of down_oracle "[]" "[97]" state0 _ server_error server_error server_error] srv
    by (simp add: answer_def down_oracle_def state0_def)
  have p1: "process_candidate flaky_oracle [] [84] [66] state0 [97] =
     Some \<lparr>finalAudiobookChunks =
              [\<lparr>index = 0, chunkText = [97], chapterTitle = Some [84],
                fileName = part_file_name [66] 1 [],
                status = Pending, tokenCount = Some 10, errorDetails = None\<rparr>],
            chunkIndex = 1, ost = \<lparr>calls = 3, sleeps = [1000, 2000]\<rparr>\<rparr>"
    using retry_semantics [of flaky_oracle "[]" "[97]" state0 10 _ _ _ "\<lparr>calls = 3, sleeps = [1000, 2000]\<rparr>" "[84]" "[66]"]
      c5 bound
    by (simp add: state0_def)
  have p2: "process_candidate failing_then_denying_oracle [] [84] [66] state0 [97] =
     Some \<lparr>finalAudiobookChunks =
              [\<lparr>index = 0, chunkText = error_snippet [97], chapterTitle = Some [84],
                fileName = part_file_name [66] 1 (asc ''_TOKEN_ERR''),
                status = Error, tokenCount = None,
                errorDetails = Some (asc ''Token counting failed for this candidate chunk: ''
                                     @ asc ''denied'')\<rparr>],
            chunkIndex = 1, ost = \<lparr>calls = 2, sleeps = [1000]\<rparr>\<rparr>"
    using retry_semantics [of failing_then_denying_oracle "[]" "[97]" state0 _ denied_error _ _ "\<lparr>calls = 2, sleeps = [1000]\<rparr>" "[84]" "[66]"]
      c4
    by (simp add: state0_def t1)
  show ?thesis
    using srv den c1 c2 c3 c4 c5 c6 p1 p2 by (simp only: simp_thms)
qed

section \<open>Coverage up to separators\<close>

lemma takeWhile_shorter_iff: "length (takeWhile P f) < length f \<longleftrightarrow> (\<exists>c \<in> set f. \<not> P c)"
proof -
  have "length f = length (takeWhile P f) + length (dropWhile P f)"
    by (metis length_append takeWhile_dropWhile_id)
  then have "length (takeWhile P f) < length f \<longleftrightarrow> dropWhile P f \<noteq> []" by auto
  then show ?thesis by (simp add: dropWhile_eq_Nil_conv)
qed

lemma sep_cover_ConsI:
  assumes "\<forall>c \<in> set w. is_ws c" and "\<exists>c \<in> set f. \<not> is_ws c" and "sep_cover r fs"
  shows "sep_cover (w @ f @ r) (f # fs)"
proof -
  obtain c where c: "c \<in> set f" "\<not> is_ws c" using assms(2) by blast
  have tf: "takeWhile is_ws (f @ r) = takeWhile is_ws f"
    using c by (rule takeWhile_append1)
  have tw: "takeWhile is_ws (w @ f @ r) = w @ takeWhile is_ws f"
    using assms(1) tf by (simp add: takeWhile_append2)
  have j: "length (takeWhile is_ws f) < length f"
    using assms(2) by (simp add: takeWhile_shorter_iff)
  show ?thesis
    using j assms(3) by (simp add: Let_def tw)
qed

lemma sep_cover_ConsD:
  assumes "sep_cover s (f # fs)"
  shows "\<exists>w r. s = w @ f @ r \<and> (\<forall>c \<in> set w. is_ws c) \<and> (\<exists>c \<in> set f. \<not> is_ws c) \<and> sep_cover r fs"
proof -
  let ?j = "length (takeWhile is_ws f)"
  let ?n = "length (takeWhile is_ws s)"
  let ?w = "take (?n - ?j) s"
  let ?r = "drop (?n - ?j + length f) s"
  have j: "?j < length f" and t: "take (length f) (drop (?n - ?j) s) = f" and r: "sep_cover ?r fs"
    using assms unfolding sep_cover.simps Let_def by blast+
  have dd: "drop (length f) (drop (?n - ?j) s) = ?r"
    by (simp only: drop_drop add.commute)
  have "take (length f) (drop (?n - ?j) s) @ drop (length f) (drop (?n - ?j) s) = drop (?n - ?j) s"
    by (rule append_take_drop_id)
  then have d: "f @ ?r = drop (?n - ?j) s" by (simp only: t dd)
  have "?w @ drop (?n - ?j) s = s" by (rule append_take_drop_id)
  then have s: "s = ?w @ f @ ?r" by (simp only: d [symmetric])
  have "?w = take (?n - ?j) (takeWhile is_ws s)"
    by (rule take_takeWhile_le) simp
  then have w: "\<forall>c \<in> set ?w. is_ws c"
    by (metis in_set_takeD set_takeWhileD)
  have "\<exists>c \<in> set f. \<not> is_ws c" using j by (simp add: takeWhile_shorter_iff)
  then show ?thesis using s w r by blast
qed

lemma sep_cover_Cons_iff:
  "sep_cover s (f # fs) \<longleftrightarrow>
     (\<exists>w r. s = w @ f @ r \<and> (\<forall>c \<in> set w. is_ws c) \<and> (\<exists>c \<in> set f. \<not> is_ws c) \<and> sep_cover r fs)"
  using sep_cover_ConsD [of s f fs] sep_cover_ConsI by blast

lemma sep_cover_Nil_iff: "sep_cover s [] \<longleftrightarrow> (\<forall>c \<in> set s. is_ws c)"
  by (simp add: list_all_iff)

declare sep_cover.simps [simp del]

lemma sep_cover_ws_prefix:
  "\<forall>c \<in> set a. is_ws c \<Longrightarrow> sep_cover b gs \<Longrightarrow> sep_cover (a @ b) gs"
proof (cases gs)
  case Nil
  assume "\<forall>c \<in> set a. is_ws c" "sep_cover b gs"
  then show ?thesis using Nil by (auto simp: sep_cover_Nil_iff)
next
  case (Cons g gs')
  assume a: "\<forall>c \<in> set a. is_ws c" and b: "sep_cover b gs"
  obtain w r where wr: "b = w @ g @ r" "\<forall>c \<in> set w. is_ws c" "\<exists>c \<in> set g. \<not> is_ws c" "sep_cover r gs'"
    using b Cons sep_cover_ConsD by blast
  have "sep_cover ((a @ w) @ g @ r) (g # gs')"
    using a wr by (intro sep_cover_ConsI) auto
  then show ?thesis using wr(1) Cons by simp
qed

lemma sep_cover_append:
  "sep_cover a fs \<Longrightarrow> sep_cover b gs \<Longrightarrow> sep_cover (a @ b) (fs @ gs)"
proof (induction fs arbitrary: a)
  case Nil
  then show ?case by (simp add: sep_cover_Nil_iff sep_cover_ws_prefix)
next
  case (Cons f fs)
  obtain w r where wr: "a = w @ f @ r" "\<forall>c \<in> set w. is_ws c" "\<exists>c \<in> set f. \<not> is_ws c" "sep_cover r fs"
    using Cons.prems(1) sep_cover_ConsD by blast
  have "sep_cover (r @ b) (fs @ gs)" using Cons.IH [OF wr(4) Cons.prems(2)] .
  then have "sep_cover (w @ f @ (r @ b)) (f # (fs @ gs))"
    using wr(2,3) by (intro sep_cover_ConsI)
  then show ?case using wr(1) by simp
qed

lemma sep_cover_ws_suffix:
  "sep_cover a fs \<Longrightarrow> \<forall>c \<in> set w. is_ws c \<Longrightarrow> sep_cover (a @ w) fs"
  using sep_cover_append [of a fs w "[]"] by (simp add: sep_cover_Nil_iff)

lemma sep_cover_single:
  "\<forall>c \<in> set l. is_ws c \<Longrightarrow> \<exists>c \<in> set f. \<not> is_ws c \<Longrightarrow> \<forall>c \<in> set r. is_ws c \<Longrightarrow>
   sep_cover (l @ f @ r) [f]"
  by (intro sep_cover_ConsI) (simp_all add: sep_cover_Nil_iff)

lemma sep_cover_self: "\<exists>c \<in> set f. \<not> is_ws c \<Longrightarrow> sep_cover f [f]"
  using sep_cover_single [of "[]" f "[]"] by simp

lemma sep_cover_refine:
  "sep_cover s ps \<Longrightarrow> list_all2 sep_cover ps fss \<Longrightarrow> sep_cover s (concat fss)"
proof (induction ps arbitrary: s fss)
  case Nil
  then show ?case by simp
next
  case (Cons p ps)
  obtain fs fss' where fss: "fss = fs # fss'" "sep_cover p fs" "list_all2 sep_cover ps fss'"
    using Cons.prems(2) by (auto simp: list_all2_Cons1)
  obtain w r where wr: "s = w @ p @ r" "\<forall>c \<in> set w. is_ws c" "sep_cover r ps"
    using Cons.prems(1) sep_cover_ConsD by blast
  have "sep_cover r (concat fss')" using Cons.IH [OF wr(3) fss(3)] .
  then have "sep_cover (p @ r) (fs @ concat fss')" using fss(2) by (intro sep_cover_append)
  then have "sep_cover (w @ p @ r) (fs @ concat fss')"
    using sep_cover_ws_prefix [of w "p @ r" "fs @ concat fss'"] wr(2) by simp
  then show ?case using wr(1) fss(1) by simp
qed

lemma sep_cover_strip: "sep_cover s fs \<Longrightarrow> strip_ws (concat fs) = strip_ws s"
proof (induction fs arbitrary: s)
  case Nil
  then show ?case by (simp add: sep_cover_Nil_iff strip_ws_all_ws)
next
  case (Cons f fs)
  obtain w r where wr: "s = w @ f @ r" "\<forall>c \<in> set w. is_ws c" "sep_cover r fs"
    using Cons.prems sep_cover_ConsD by blast
  show ?case using Cons.IH [OF wr(3)] wr(1,2) by (simp add: strip_ws_all_ws)
qed

lemma sep_cover_nonblank: "sep_cover s fs \<Longrightarrow> \<forall>f \<in> set fs. \<exists>c \<in> set f. \<not> is_ws c"
proof (induction fs arbitrary: s)
  case Nil
  show ?case by simp
next
  case (Cons f fs)
  obtain w r where wr: "\<exists>c \<in> set f. \<not> is_ws c" "sep_cover r fs"
    using Cons.prems sep_cover_ConsD by blast
  show ?case using Cons.IH [OF wr(2)] wr(1) by simp
qed

lemma trim_decomposition:
  "\<exists>l r. s = l @ trim s @ r \<and> (\<forall>c \<in> set l. is_ws c) \<and> (\<forall>c \<in> set r. is_ws c)"
proof -
  let ?u = "dropWhile is_ws s"
  let ?v = "dropWhile is_ws (rev ?u)"
  have t: "trim s = rev ?v" by (simp add: trim_def)
  have "rev ?u = takeWhile is_ws (rev ?u) @ ?v" by simp
  then have "rev (rev ?u) = rev (takeWhile is_ws (rev ?u) @ ?v)" by (rule arg_cong)
  then have u: "?u = rev ?v @ rev (takeWhile is_ws (rev ?u))" by (simp only: rev_rev_ident rev_append)
  have "s = takeWhile is_ws s @ ?u" by simp
  then have "s = takeWhile is_ws s @ trim s @ rev (takeWhile is_ws (rev ?u))"
    using u t by simp
  moreover have "\<forall>c \<in> set (takeWhile is_ws s). is_ws c" by (auto dest: set_takeWhileD)
  moreover have "\<forall>c \<in> set (rev (takeWhile is_ws (rev ?u))). is_ws c" by (auto dest: set_takeWhileD)
  ultimately show ?thesis by blast
qed

lemma trimmed_nonblank: "trimmed s \<Longrightarrow> \<exists>c \<in> set s. \<not> is_ws c"
  by (cases s) (auto simp: trimmed_def)

lemma trim_nonblank: "trim s \<noteq> [] \<Longrightarrow> \<exists>c \<in> set (trim s). \<not> is_ws c"
  using trim_trimmed trimmed_nonblank by blast

lemma nonblank_trim: "\<exists>c \<in> set s. \<not> is_ws c \<Longrightarrow> trim s \<noteq> []"
  by (auto simp: trim_empty_iff)

lemma piece_cover: "sep_cover x (filter nonempty [trim x])"
proof (cases "trim x = []")
  case True
  then have "\<forall>c \<in> set x. is_ws c" by (simp add: trim_empty_iff)
  then show ?thesis using True by (simp add: nonempty_def sep_cover_Nil_iff)
next
  case False
  obtain l r where lr: "x = l @ trim x @ r" "\<forall>c \<in> set l. is_ws c" "\<forall>c \<in> set r. is_ws c"
    using trim_decomposition by blast
  have "sep_cover (l @ trim x @ r) [trim x]"
    using lr(2,3) trim_nonblank [OF False] by (intro sep_cover_single)
  then show ?thesis using lr(1) False by (simp add: nonempty_def)
qed

lemma split_loop_sep_cover:
  "ws_matcher m \<Longrightarrow>
   sep_cover (piece @ rest) (filter nonempty (map trim (split_loop m prev piece rest)))"
proof (induction m prev piece rest rule: split_loop.induct)
  case (1 m prev piece)
  show ?case using piece_cover [of piece] by (simp add: split_loop.simps)
next
  case (2 m prev piece c cs)
  let ?P = "filter nonempty [trim piece]"
  show ?case
  proof (cases "m prev (c # cs)")
    case None
    then show ?thesis using 2 by (simp add: split_loop.simps)
  next
    case (Some k)
    show ?thesis
    proof (cases "k = 0")
      case True
      show ?thesis
      proof (cases "piece = []")
        case e: True
        then show ?thesis using 2 Some True by (simp add: split_loop.simps)
      next
        case ne: False
        let ?R = "filter nonempty (map trim (split_loop m prev [] (c # cs)))"
        have "sep_cover ([] @ c # cs) ?R"
          using "2.IH"(3) [OF Some True ne "2.prems"] .
        then have cv: "sep_cover (piece @ (c # cs)) (?P @ ?R)"
          using piece_cover [of piece] by (intro sep_cover_append) simp_all
        have "split_loop m prev piece (c # cs) = piece # split_loop m prev [] (c # cs)"
          using Some True ne by (subst split_loop.simps) simp
        then have "filter nonempty (map trim (split_loop m prev piece (c # cs))) = ?P @ ?R"
          by simp
        then show ?thesis using cv by (simp only:)
      qed
    next
      case False
      let ?R = "filter nonempty (map trim (split_loop m (Some (last (take k (c # cs)))) [] (drop k (c # cs))))"
      have ws: "\<forall>x \<in> set (take k (c # cs)). is_ws x"
        using "2.prems" Some by (auto simp: ws_matcher_def)
      have "sep_cover ([] @ drop k (c # cs)) ?R"
        using "2.IH"(4) [OF Some False "2.prems"] .
      then have "sep_cover (take k (c # cs) @ drop k (c # cs)) ?R"
        using ws sep_cover_ws_prefix [of "take k (c # cs)" "drop k (c # cs)" ?R] by simp
      then have "sep_cover (c # cs) ?R" by (simp only: append_take_drop_id)
      then have cv: "sep_cover (piece @ (c # cs)) (?P @ ?R)"
        using piece_cover [of piece] by (intro sep_cover_append)
      have "split_loop m prev piece (c # cs) =
            piece # split_loop m (Some (last (take k (c # cs)))) [] (drop k (c # cs))"
        using Some False by (subst split_loop.simps) simp
      then have "filter nonempty (map trim (split_loop m prev piece (c # cs))) = ?P @ ?R"
        by simp
      then show ?thesis using cv by (simp only:)
    qed
  qed
qed

lemma js_split_sep_cover:
  "ws_matcher m \<Longrightarrow> sep_cover s (filter nonempty (map trim (js_split m s)))"
proof (cases "s = []")
  case True
  have "trim [] = []" by (simp add: trim_def)
  then show ?thesis using True by (simp add: js_split_def nonempty_def sep_cover_Nil_iff)
next
  case False
  assume "ws_matcher m"
  then show ?thesis
    using False split_loop_sep_cover [of m "[]" s None] by (simp add: js_split_def)
qed

lemma splitTextIntoParagraphs_sep_cover: "sep_cover t (splitTextIntoParagraphs t)"
  by (simp add: splitTextIntoParagraphs_def js_split_sep_cover [OF para_match_ws])

lemma trim_idem: "trim (trim s) = trim s"
proof (cases "trim s = []")
  case True
  have "trim [] = []" by (simp add: trim_def)
  then show ?thesis using True by simp
next
  case False
  then show ?thesis using trim_trimmed trimmed_trim by blast
qed

lemma filter_trim_twice:
  "filter nonempty (map trim (filter nonempty (map trim xs))) = filter nonempty (map trim xs)"
  by (induction xs) (simp_all add: trim_idem)

lemma trimmed_pieces: "\<forall>p \<in> set (filter nonempty (map trim xs)). trimmed p"
  by (auto simp: nonempty_def trim_trimmed)

lemma char_window_loop_cover:
  assumes "0 < target" and "pos \<le> length str"
  shows "\<exists>r. char_window_loop str target pos results = Some (results @ r) \<and>
             sep_cover (drop pos str) r \<and> (\<forall>f \<in> set r. trimmed f)"
  using assms(2)
proof (induction "length str - pos" arbitrary: pos results rule: less_induct)
  case less
  show ?case
  proof (cases "pos < length str")
    case False
    then have "char_window_loop str target pos results = Some (results @ [])"
      by (subst char_window_loop.simps) simp
    moreover have "drop pos str = []" using False by simp
    ultimately show ?thesis by (simp add: sep_cover_Nil_iff)
  next
    case True
    let ?sp = "next_split_point str target pos"
    let ?sub = "substring str pos ?sp"
    let ?part = "trim ?sub"
    let ?res = "if ?part \<noteq> [] then results @ [?part] else results"
    have sp: "pos < ?sp" "?sp \<le> length str"
      using next_split_point_progress [OF assms(1) True] by simp_all
    have step: "char_window_loop str target pos results = char_window_loop str target ?sp ?res"
      using True by (subst char_window_loop.simps) simp
    have "length str - ?sp < length str - pos" using sp True by simp
    then obtain r where r: "char_window_loop str target ?sp ?res = Some (?res @ r)"
      and cov: "sep_cover (drop ?sp str) r"
      and tr: "\<forall>f \<in> set r. trimmed f"
      using less.hyps [of ?sp ?res] sp by blast
    have sub: "?sub = take (?sp - pos) (drop pos str)"
      using sp by (simp add: substring_take_drop)
    have "drop pos str = take (?sp - pos) (drop pos str) @ drop ?sp str"
      using sp by (metis append_take_drop_id drop_drop le_add_diff_inverse2 less_imp_le_nat)
    then have split: "drop pos str = ?sub @ drop ?sp str" by (simp only: sub)
    have "sep_cover (?sub @ drop ?sp str) (filter nonempty [?part] @ r)"
      using piece_cover [of ?sub] cov by (intro sep_cover_append)
    then have c: "sep_cover (drop pos str) (filter nonempty [?part] @ r)" by (simp only: split [symmetric])
    show ?thesis
    proof (cases "?part = []")
      case True
      then have "char_window_loop str target pos results = Some (results @ r)"
        using step r by simp
      moreover have "sep_cover (drop pos str) r" using c True by (simp add: nonempty_def)
      ultimately show ?thesis using tr by blast
    next
      case False
      then have "char_window_loop str target pos results = Some (results @ (?part # r))"
        using step r by simp
      moreover have "sep_cover (drop pos str) (?part # r)" using c False by (simp add: nonempty_def)
      moreover have "\<forall>f \<in> set (?part # r). trimmed f" using tr False by (simp add: trim_trimmed)
      ultimately show ?thesis by blast
    qed
  qed
qed

lemma filter_nonempty_nonblank:
  "\<forall>f \<in> set r. \<exists>c \<in> set f. \<not> is_ws c \<Longrightarrow> filter nonempty r = r"
  by (induction r) (auto simp: nonempty_def)

lemma list_all2_fst_conj:
  "list_all2 (\<lambda>x y. P x y \<and> Q x y) xs ys \<Longrightarrow> list_all2 P xs ys"
  by (induction xs ys rule: list_all2_induct) simp_all

lemma fragments_of_trimmed:
  "list_all2 (\<lambda>x y. sep_cover x y \<and> (\<forall>f \<in> set y. trimmed f \<or> f = x)) ps rs \<Longrightarrow>
   \<forall>p \<in> set ps. trimmed p \<Longrightarrow> \<forall>f \<in> set (concat rs). trimmed f"
  by (induction ps rs rule: list_all2_induct) auto

text \<open>
  What the splitter returns for a positive target: the fragments cover the text up to
  separators, and a fragment has no whitespace at either end unless it is the whole text.
\<close>

lemma forceSplit_cover:
  "0 < target \<Longrightarrow>
   \<exists>r. forceSplitTextRecursive_SYNC str target depth = Some r \<and>
       sep_cover str r \<and> (\<forall>f \<in> set r. trimmed f \<or> f = str)"
proof (induction str target depth rule: forceSplitTextRecursive_SYNC.induct)
  case (1 str target depth)
  let ?R = "\<lambda>x y. sep_cover x y \<and> (\<forall>f \<in> set y. trimmed f \<or> f = x)"
  show ?case
  proof (cases "trim str = []")
    case True
    then have "forceSplitTextRecursive_SYNC str target depth = Some []"
      by (subst forceSplitTextRecursive_SYNC.simps) simp
    moreover have "\<forall>c \<in> set str. is_ws c" using True by (simp add: trim_empty_iff)
    ultimately show ?thesis by (simp add: sep_cover_Nil_iff)
  next
    case ne: False
    then have nb: "\<exists>c \<in> set str. \<not> is_ws c" by (simp add: trim_empty_iff)
    show ?thesis
    proof (cases "depth > 15 \<or> (2 * length str \<le> 3 * target \<and> depth > 0)")
      case True
      then have "forceSplitTextRecursive_SYNC str target depth = Some [str]"
        using ne by (subst forceSplitTextRecursive_SYNC.simps) auto
      then show ?thesis using sep_cover_self [OF nb] by simp
    next
      case False
      then have d: "\<not> 15 < depth" and small: "\<not> (2 * length str \<le> 3 * target \<and> 0 < depth)"
        by auto
      have c: "(2 * length str \<le> 3 * target \<and> 0 < depth) = False" using small by simp
      show ?thesis
      proof (cases "length (js_split para_match str) > 1")
        case True
        let ?ps = "filter nonempty (map trim (js_split para_match str))"
        have "\<exists>y. forceSplitTextRecursive_SYNC x target (depth + 1) = Some y \<and> ?R x y"
          if "x \<in> set ?ps" for x
          using "1.IH"(1) [OF ne d small True that "1.prems"] by simp
        then obtain rs where rs: "those (map (\<lambda>para. forceSplitTextRecursive_SYNC para target (depth + 1)) ?ps) = Some rs"
          and all: "list_all2 ?R ?ps rs"
          using those_map_Some [of ?ps "\<lambda>para. forceSplitTextRecursive_SYNC para target (depth + 1)" ?R]
          by blast
        have res: "forceSplitTextRecursive_SYNC str target depth = Some (filter nonempty (concat rs))"
          using ne d True rs by (subst forceSplitTextRecursive_SYNC.simps) (simp add: c)
        have "sep_cover str ?ps" using para_match_ws by (rule js_split_sep_cover)
        then have cov: "sep_cover str (concat rs)"
          using list_all2_fst_conj [OF all] by (rule sep_cover_refine)
        have tr: "\<forall>f \<in> set (concat rs). trimmed f"
          using all trimmed_pieces by (rule fragments_of_trimmed)
        have "filter nonempty (concat rs) = concat rs"
          using sep_cover_nonblank [OF cov] by (rule filter_nonempty_nonblank)
        then show ?thesis using res cov tr by simp
      next
        case nopara: False
        show ?thesis
        proof (cases "length (filter nonempty (map trim (js_split sent_match str))) > 1")
          case True
          let ?ss = "filter nonempty (map trim (filter nonempty (map trim (js_split sent_match str))))"
          have "\<exists>y. forceSplitTextRecursive_SYNC x target (depth + 1) = Some y \<and> ?R x y"
            if "x \<in> set ?ss" for x
            using "1.IH"(2) [OF ne d small nopara True that "1.prems"] by simp
          then obtain rs where rs: "those (map (\<lambda>sentence. forceSplitTextRecursive_SYNC sentence target (depth + 1)) ?ss) = Some rs"
            and all: "list_all2 ?R ?ss rs"
            using those_map_Some [of ?ss "\<lambda>sentence. forceSplitTextRecursive_SYNC sentence target (depth + 1)" ?R]
            by blast
          have res: "forceSplitTextRecursive_SYNC str target depth = Some (filter nonempty (concat rs))"
            using ne d nopara True rs by (subst forceSplitTextRecursive_SYNC.simps) (simp add: c)
          have "sep_cover str (filter nonempty (map trim (js_split sent_match str)))"
            using sent_match_ws by (rule js_split_sep_cover)
          then have "sep_cover str ?ss" by (simp only: filter_trim_twice)
          then have cov: "sep_cover str (concat rs)"
            using list_all2_fst_conj [OF all] by (rule sep_cover_refine)
          have tr: "\<forall>f \<in> set (concat rs). trimmed f"
            using all trimmed_pieces by (rule fragments_of_trimmed)
          have "filter nonempty (concat rs) = concat rs"
            using sep_cover_nonblank [OF cov] by (rule filter_nonempty_nonblank)
          then show ?thesis using res cov tr by simp
        next
          case nosent: False
          obtain w where w: "char_window_loop str target 0 [] = Some ([] @ w)"
            and cov: "sep_cover (drop 0 str) w"
            and tr: "\<forall>f \<in> set w. trimmed f"
            using char_window_loop_cover [OF "1.prems", of 0 str "[]"] by auto
          have res: "forceSplitTextRecursive_SYNC str target depth =
                Some (filter nonempty (if length w = 0 \<and> length str > 0 then w @ [str] else w))"
            using ne d nopara nosent w by (subst forceSplitTextRecursive_SYNC.simps) (simp add: c)
          have "w \<noteq> []" using cov nb by (auto simp: sep_cover_Nil_iff)
          moreover have "filter nonempty w = w"
            using sep_cover_nonblank [OF cov] by (rule filter_nonempty_nonblank)
          ultimately show ?thesis using res cov tr by simp
        qed
      qed
    qed
  qed
qed

section \<open>Coverage by the splitter\<close>

text \<open>
  C9 (splitter totality), as claimed, fails on a non-empty string of whitespace: the guard
  \<open>if (!text.trim()) return []\<close> gives no fragment for a single space.
\<close>

theorem forceSplit_blank_counterexample:
  "[32] \<noteq> ([] :: jsstring) \<and> forceSplitTextRecursive_SYNC [32] 500 0 = Some []"
  by (subst forceSplitTextRecursive_SYNC.simps) (simp add: trim_def is_ws_def)

text \<open>
  C9, amended. For every string with at least one code unit that is not whitespace,
  every depth and every positive target, \<open>forceSplitTextRecursive_SYNC\<close> returns a
  non-empty list of non-empty fragments such that the string is exactly the fragments, in
  order, with nothing but whitespace (possibly none) before, between and after them: the
  whitespace inside a fragment is kept as it is. A fragment has no whitespace at its ends,
  unless it is the whole string. In particular the concatenation of the fragments and the
  string are equal once whitespace is removed. For a string of whitespace only, or empty,
  the splitter returns the empty list, whatever the target and the depth.
\<close>

theorem forceSplit_total:
  "(0 < target \<and> (\<exists>c \<in> set str. \<not> is_ws c) \<longrightarrow>
      (\<exists>r. forceSplitTextRecursive_SYNC str target depth = Some r \<and> r \<noteq> [] \<and>
           (\<forall>f \<in> set r. f \<noteq> []) \<and> sep_cover str r \<and>
           (\<forall>f \<in> set r. trimmed f \<or> f = str) \<and>
           strip_ws (concat r) = strip_ws str)) \<and>
   ((\<forall>c \<in> set blank. is_ws c) \<longrightarrow> forceSplitTextRecursive_SYNC blank target2 depth2 = Some [])"
proof (intro conjI impI)
  assume a: "0 < target \<and> (\<exists>c \<in> set str. \<not> is_ws c)"
  then obtain r where r: "forceSplitTextRecursive_SYNC str target depth = Some r"
    and cov: "sep_cover str r" and tr: "\<forall>f \<in> set r. trimmed f \<or> f = str"
    using forceSplit_cover [of target str depth] by blast
  have "r \<noteq> []" using cov a by (auto simp: sep_cover_Nil_iff)
  moreover have "\<forall>f \<in> set r. f \<noteq> []" using sep_cover_nonblank [OF cov] by auto
  moreover have "strip_ws (concat r) = strip_ws str" using cov by (rule sep_cover_strip)
  ultimately show "\<exists>r. forceSplitTextRecursive_SYNC str target depth = Some r \<and> r \<noteq> [] \<and>
           (\<forall>f \<in> set r. f \<noteq> []) \<and> sep_cover str r \<and>
           (\<forall>f \<in> set r. trimmed f \<or> f = str) \<and>
           strip_ws (concat r) = strip_ws str"
    using r cov tr by blast
next
  assume "\<forall>c \<in> set blank. is_ws c"
  then have "trim blank = []" by (simp add: trim_empty_iff)
  then show "forceSplitTextRecursive_SYNC blank target2 depth2 = Some []"
    by (subst forceSplitTextRecursive_SYNC.simps) simp
qed

theorem forceSplit_total_witness:
  "(\<exists>r. forceSplitTextRecursive_SYNC [97, 97, 32, 97, 97, 97, 32, 97] 3 0 = Some r \<and> r \<noteq> [] \<and>
        (\<forall>f \<in> set r. f \<noteq> []) \<and> sep_cover [97, 97, 32, 97, 97, 97, 32, 97] r \<and>
        (\<forall>f \<in> set r. trimmed f \<or> f = [97, 97, 32, 97, 97, 97, 32, 97]) \<and>
        strip_ws (concat r) = strip_ws [97, 97, 32, 97, 97, 97, 32, 97]) \<and>
   forceSplitTextRecursive_SYNC [32, 10] 0 7 = Some []"
  using forceSplit_total [of 3 "[97, 97, 32, 97, 97, 97, 32, 97]" 0 "[32, 10]" 0 7]
  by (simp add: is_ws_def)

section \<open>Whitespace normalized\<close>

lemma is_ws_space: "is_ws 32"
  by (simp add: is_ws_def)

lemma dropWhile_all: "\<forall>x \<in> set xs. P x \<Longrightarrow> dropWhile P xs = []"
  by simp

lemma collapse_ws_blank:
  "\<forall>c \<in> set w. is_ws c \<Longrightarrow> collapse_ws w = (if w = [] then [] else [32])"
  by (cases w) (simp_all add: dropWhile_all)

lemma collapse_ws_append:
  "collapse_ws (a @ b) =
     collapse_ws a @ collapse_ws (if a \<noteq> [] \<and> is_ws (last a) then dropWhile is_ws b else b)"
proof (induction a rule: collapse_ws.induct)
  case 1
  show ?case by simp
next
  case (2 c cs)
  show ?case
  proof (cases "is_ws c")
    case False
    then show ?thesis using 2 by (cases cs) simp_all
  next
    case True
    show ?thesis
    proof (cases "\<forall>x \<in> set cs. is_ws x")
      case all: True
      then have l: "is_ws (last (c # cs))" using True by (cases cs) simp_all
      have d1: "dropWhile is_ws cs = []" using all by simp
      have d2: "dropWhile is_ws (cs @ b) = dropWhile is_ws b"
        using all by (simp add: dropWhile_append2)
      show ?thesis using True l by (simp add: d1 d2)
    next
      case some: False
      then have d: "dropWhile is_ws cs \<noteq> []" by (simp add: dropWhile_eq_Nil_conv)
      then have l: "last (dropWhile is_ws cs) = last cs" by (rule dropWhile_keeps_last)
      have ne: "cs \<noteq> []" using some by auto
      obtain x where "x \<in> set cs" "\<not> is_ws x" using some by blast
      then have d3: "dropWhile is_ws (cs @ b) = dropWhile is_ws cs @ b"
        by (rule dropWhile_append1)
      show ?thesis using "2.IH"(1) [OF True] True d l ne by (simp add: d3)
    qed
  qed
qed

lemma collapse_ws_append_left:
  "a = [] \<or> \<not> is_ws (last a) \<Longrightarrow> collapse_ws (a @ b) = collapse_ws a @ collapse_ws b"
  by (auto simp: collapse_ws_append)

lemma collapse_ws_append_right:
  "b = [] \<or> \<not> is_ws (hd b) \<Longrightarrow> collapse_ws (a @ b) = collapse_ws a @ collapse_ws b"
proof -
  assume "b = [] \<or> \<not> is_ws (hd b)"
  then have "dropWhile is_ws b = b" by (cases b) auto
  then show ?thesis by (simp add: collapse_ws_append)
qed

lemma strip_ws_collapse [simp]: "strip_ws (collapse_ws s) = strip_ws s"
proof (induction s rule: collapse_ws.induct)
  case 1
  show ?case by simp
next
  case (2 c cs)
  then show ?case
    using strip_ws_dropWhile [of cs] by (simp add: strip_ws_Cons is_ws_space)
qed

lemma collapse_ws_empty_iff: "collapse_ws s = [] \<longleftrightarrow> s = []"
  by (cases s) simp_all

lemma collapse_ws_nonblank:
  "\<exists>c \<in> set f. \<not> is_ws c \<Longrightarrow> \<exists>c \<in> set (collapse_ws f). \<not> is_ws c"
proof -
  assume "\<exists>c \<in> set f. \<not> is_ws c"
  then have "strip_ws f \<noteq> []" using strip_ws_empty_iff [of f] by blast
  then have "strip_ws (collapse_ws f) \<noteq> []" by simp
  then show ?thesis using strip_ws_empty_iff [of "collapse_ws f"] by blast
qed

lemma collapse_ws_all_ws: "\<forall>c \<in> set w. is_ws c \<Longrightarrow> \<forall>c \<in> set (collapse_ws w). is_ws c"
  by (simp add: collapse_ws_blank is_ws_space)

lemma collapse_ws_trimmed: "trimmed f \<Longrightarrow> trimmed (collapse_ws f)"
proof -
  assume t: "trimmed f"
  then obtain c cs where f: "f = c # cs" and c: "\<not> is_ws c" by (cases f) (auto simp: trimmed_def)
  have ne: "f \<noteq> []" and l: "\<not> is_ws (last f)" using t by (simp_all add: trimmed_def)
  have h: "hd (collapse_ws f) = c" using f c by simp
  have "collapse_ws (butlast f @ [last f]) =
        collapse_ws (butlast f) @
        collapse_ws (if butlast f \<noteq> [] \<and> is_ws (last (butlast f))
                     then dropWhile is_ws [last f] else [last f])"
    by (rule collapse_ws_append)
  then have "collapse_ws f = collapse_ws (butlast f) @ [last f]"
    using ne l by simp
  then have "last (collapse_ws f) = last f" by simp
  then show ?thesis using h c l ne by (simp add: trimmed_def collapse_ws_empty_iff)
qed

text \<open>Coverage up to separators is kept when whitespace is normalized.\<close>

lemma sep_cover_collapse:
  "sep_cover s fs \<Longrightarrow> \<forall>f \<in> set fs. trimmed f \<Longrightarrow>
   sep_cover (collapse_ws s) (map collapse_ws fs)"
proof (induction fs arbitrary: s)
  case Nil
  then show ?case by (simp add: sep_cover_Nil_iff collapse_ws_all_ws)
next
  case (Cons f fs)
  obtain w r where wr: "s = w @ f @ r" "\<forall>c \<in> set w. is_ws c" "\<exists>c \<in> set f. \<not> is_ws c" "sep_cover r fs"
    using Cons.prems(1) sep_cover_ConsD by blast
  have t: "f \<noteq> []" "\<not> is_ws (hd f)" "\<not> is_ws (last f)"
    using Cons.prems(2) by (simp_all add: trimmed_def)
  have "collapse_ws (w @ (f @ r)) = collapse_ws w @ collapse_ws (f @ r)"
    using t by (intro collapse_ws_append_right) simp
  also have "collapse_ws (f @ r) = collapse_ws f @ collapse_ws r"
    using t by (intro collapse_ws_append_left) simp
  finally have e: "collapse_ws s = collapse_ws w @ collapse_ws f @ collapse_ws r"
    using wr(1) by simp
  have "sep_cover (collapse_ws r) (map collapse_ws fs)"
    using Cons.IH [OF wr(4)] Cons.prems(2) by simp
  then have "sep_cover (collapse_ws w @ collapse_ws f @ collapse_ws r)
               (collapse_ws f # map collapse_ws fs)"
    using collapse_ws_all_ws [OF wr(2)] collapse_ws_nonblank [OF wr(3)]
    by (intro sep_cover_ConsI)
  then show ?case using e by simp
qed

text \<open>The normal form of two texts with whitespace between them.\<close>

lemma trim_between:
  assumes "trimmed x" and "\<forall>c \<in> set l. is_ws c" and "\<forall>c \<in> set r. is_ws c"
  shows "trim (l @ x @ r) = x"
proof -
  have x: "x \<noteq> []" "\<not> is_ws (hd x)" "\<not> is_ws (last x)" using assms(1) by (simp_all add: trimmed_def)
  have "dropWhile is_ws (x @ r) = x @ r" using x by (cases x) simp_all
  then have a: "dropWhile is_ws (l @ x @ r) = x @ r"
    using assms(2) by (simp add: dropWhile_append2)
  have b: "dropWhile is_ws (rev x) = rev x" using x by (cases "rev x") (simp_all add: hd_rev)
  have "dropWhile is_ws (rev r @ rev x) = dropWhile is_ws (rev x)"
    using assms(3) by (intro dropWhile_append2) simp
  then have "dropWhile is_ws (rev (x @ r)) = rev x" by (simp only: b rev_append)
  then show ?thesis by (simp add: trim_def a)
qed

lemma trim_blank_left: "\<forall>c \<in> set l. is_ws c \<Longrightarrow> trim (l @ b) = trim b"
  by (simp add: trim_def dropWhile_append2)

lemma trim_blank_right: "\<forall>c \<in> set r. is_ws c \<Longrightarrow> trim (a @ r) = trim a"
proof (cases "trim a = []")
  case True
  assume "\<forall>c \<in> set r. is_ws c"
  then have "\<forall>c \<in> set (a @ r). is_ws c" using True by (auto simp: trim_empty_iff)
  then have "trim (a @ r) = []" by (simp only: trim_empty_iff)
  then show ?thesis using True by simp
next
  case False
  assume r: "\<forall>c \<in> set r. is_ws c"
  obtain l r' where lr: "a = l @ trim a @ r'" "\<forall>c \<in> set l. is_ws c" "\<forall>c \<in> set r'. is_ws c"
    using trim_decomposition by blast
  have f: "trim (l @ trim a @ (r' @ r)) = trim a"
    using trim_trimmed [OF False] lr(2,3) r by (intro trim_between) auto
  have e: "a @ r = l @ trim a @ (r' @ r)" using lr(1) by (metis append.assoc)
  show ?thesis unfolding e by (rule f)
qed

lemma normal_form_empty_iff: "normal_form s = [] \<longleftrightarrow> trim s = []"
  by (simp add: normal_form_def collapse_ws_empty_iff)

lemma normal_form_separated:
  assumes "\<forall>c \<in> set w. is_ws c" and "w \<noteq> []"
  shows "normal_form (a @ w @ b) = glue (normal_form a) (normal_form b)"
proof (cases "trim a = []")
  case True
  then have "\<forall>c \<in> set (a @ w). is_ws c" using assms(1) by (auto simp: trim_empty_iff)
  then have "trim ((a @ w) @ b) = trim b" by (rule trim_blank_left)
  then show ?thesis using True by (simp add: normal_form_def glue_def)
next
  case a: False
  show ?thesis
  proof (cases "trim b = []")
    case True
    then have "\<forall>c \<in> set (w @ b). is_ws c" using assms(1) by (auto simp: trim_empty_iff)
    then have "trim (a @ (w @ b)) = trim a" by (rule trim_blank_right)
    then show ?thesis using True a by (simp add: normal_form_def glue_def collapse_ws_empty_iff)
  next
    case b: False
    obtain la ra where A: "a = la @ trim a @ ra" "\<forall>c \<in> set la. is_ws c" "\<forall>c \<in> set ra. is_ws c"
      using trim_decomposition by blast
    obtain lb rb where B: "b = lb @ trim b @ rb" "\<forall>c \<in> set lb. is_ws c" "\<forall>c \<in> set rb. is_ws c"
      using trim_decomposition by blast
    let ?m = "ra @ w @ lb"
    let ?x = "trim a @ ?m @ trim b"
    have ta: "trimmed (trim a)" and tb: "trimmed (trim b)" using a b by (simp_all add: trim_trimmed)
    have m: "\<forall>c \<in> set ?m. is_ws c" "?m \<noteq> []" using A(3) B(2) assms by auto
    have tx: "trimmed ?x" using ta tb by (simp add: trimmed_def)
    have e: "a @ w @ b = la @ ?x @ rb" using A(1) B(1) by (metis append.assoc)
    have "trim (la @ ?x @ rb) = ?x" using tx A(2) B(3) by (rule trim_between)
    then have t: "trim (a @ w @ b) = ?x" by (simp only: e)
    have "collapse_ws (trim a @ (?m @ trim b)) = collapse_ws (trim a) @ collapse_ws (?m @ trim b)"
      using ta by (intro collapse_ws_append_left) (simp add: trimmed_def)
    also have "collapse_ws (?m @ trim b) = collapse_ws ?m @ collapse_ws (trim b)"
      using tb by (intro collapse_ws_append_right) (simp add: trimmed_def)
    also have "collapse_ws ?m = [32]" using m by (simp only: collapse_ws_blank) simp
    finally have "collapse_ws ?x = collapse_ws (trim a) @ 32 # collapse_ws (trim b)" by simp
    then show ?thesis using a b t by (simp add: normal_form_def glue_def collapse_ws_empty_iff)
  qed
qed

lemma glue_Nil [simp]: "glue a [] = a" "glue [] b = b"
  by (simp_all add: glue_def)

lemma glue_assoc: "glue (glue a b) c = glue a (glue b c)"
  by (simp add: glue_def)

lemma glue_all_Nil [simp]: "glue_all [] = []"
  by (simp add: glue_all_def)

lemma glue_all_Cons [simp]: "glue_all (x # xs) = glue x (glue_all xs)"
  by (simp add: glue_all_def)

lemma glue_all_append: "glue_all (xs @ ys) = glue (glue_all xs) (glue_all ys)"
  by (induction xs) (simp_all add: glue_assoc)

lemma glue_all_concat: "glue_all (map glue_all xss) = glue_all (concat xss)"
  by (induction xss) (simp_all add: glue_all_append)

lemma glue_all_filter: "glue_all (filter (\<lambda>x. x \<noteq> []) xs) = glue_all xs"
  by (induction xs) simp_all

lemma sep_cover_glue:
  "sep_cover a fs \<Longrightarrow> sep_cover b gs \<Longrightarrow> sep_cover (glue a b) (fs @ gs)"
proof -
  assume a: "sep_cover a fs" and b: "sep_cover b gs"
  have "sep_cover ([32] @ b) gs" using b by (intro sep_cover_ws_prefix) (simp_all add: is_ws_space)
  then have "sep_cover (a @ [32] @ b) (fs @ gs)" using a by (intro sep_cover_append)
  moreover have "sep_cover (a @ b) (fs @ gs)" using a b by (rule sep_cover_append)
  ultimately show ?thesis by (auto simp: glue_def)
qed

lemma sep_cover_glue_all:
  "list_all2 sep_cover xs fss \<Longrightarrow> sep_cover (glue_all xs) (concat fss)"
  by (induction xs fss rule: list_all2_induct) (simp_all add: sep_cover_Nil_iff sep_cover_glue)

text \<open>The normal form of a text is made of the normal forms of its paragraphs.\<close>

lemma normal_form_Nil [simp]: "normal_form [] = []"
  by (simp add: normal_form_def trim_def)

lemma normal_form_trim [simp]: "normal_form (trim s) = normal_form s"
  by (simp add: normal_form_def trim_idem)

lemma normal_form_trimmed: "trimmed s \<Longrightarrow> normal_form s = collapse_ws s"
  by (simp add: normal_form_def trimmed_trim)

lemma split_loop_normal_form:
  "ws_matcher m \<Longrightarrow> (\<And>prev r. m prev r \<noteq> Some 0) \<Longrightarrow>
   normal_form (piece @ rest) = glue_all (map normal_form (split_loop m prev piece rest))"
proof (induction m prev piece rest rule: split_loop.induct)
  case (1 m prev piece)
  show ?case by (simp add: split_loop.simps)
next
  case (2 m prev piece c cs)
  show ?case
  proof (cases "m prev (c # cs)")
    case None
    have "split_loop m prev piece (c # cs) = split_loop m (Some c) (piece @ [c]) cs"
      using None by (subst split_loop.simps) simp
    then show ?thesis using "2.IH"(1) [OF None "2.prems"] by simp
  next
    case (Some k)
    then have False: "k \<noteq> 0" using "2.prems"(2) [of prev "c # cs"] by auto
    have ws: "\<forall>x \<in> set (take k (c # cs)). is_ws x"
      using "2.prems"(1) Some by (auto simp: ws_matcher_def)
    have ne: "take k (c # cs) \<noteq> []" using False by (cases k) simp_all
    have eq: "split_loop m prev piece (c # cs) =
          piece # split_loop m (Some (last (take k (c # cs)))) [] (drop k (c # cs))"
      using Some False by (subst split_loop.simps) simp
    have "normal_form (piece @ take k (c # cs) @ drop k (c # cs)) =
          glue (normal_form piece) (normal_form (drop k (c # cs)))"
      using ws ne by (rule normal_form_separated)
    also have "normal_form (drop k (c # cs)) =
          glue_all (map normal_form (split_loop m (Some (last (take k (c # cs)))) [] (drop k (c # cs))))"
      using "2.IH"(4) [OF Some False "2.prems"] by simp
    finally show ?thesis by (simp only: eq append_take_drop_id list.map glue_all_Cons)
  qed
qed

lemma normal_form_pieces:
  "map normal_form (filter nonempty (map trim xs)) = filter (\<lambda>x. x \<noteq> []) (map normal_form xs)"
  by (induction xs) (simp_all add: nonempty_def normal_form_empty_iff)

lemma splitTextIntoParagraphs_normal_form:
  "glue_all (map normal_form (splitTextIntoParagraphs t)) = normal_form t"
proof -
  have "glue_all (map normal_form (js_split para_match t)) = normal_form t"
  proof (cases "t = []")
    case True
    then show ?thesis by (simp add: js_split_def para_match_def)
  next
    case False
    then show ?thesis
      using split_loop_normal_form [OF para_match_ws para_match_not_0, of "[]" t None]
      by (simp add: js_split_def)
  qed
  then show ?thesis
    by (simp add: splitTextIntoParagraphs_def normal_form_pieces glue_all_filter)
qed

lemma blank_line_ws: "\<forall>c \<in> set blank_line. is_ws c" "blank_line \<noteq> []"
  by (simp_all add: blank_line_def is_ws_def)

lemma join_blank_normal_form:
  "normal_form (join_blank ps) = glue_all (map normal_form ps)"
proof (induction ps rule: induct_list012)
  case 1
  show ?case by (simp add: join_blank_def)
next
  case (2 p)
  show ?case by simp
next
  case (3 p q r)
  have "normal_form (p @ blank_line @ join_blank (q # r)) =
        glue (normal_form p) (normal_form (join_blank (q # r)))"
    using blank_line_ws by (rule normal_form_separated)
  then show ?case using "3.IH"(2) by (simp add: join_blank_Cons2)
qed

lemma join_blank_last:
  "g \<noteq> [] \<Longrightarrow> last g \<noteq> [] \<Longrightarrow> last (join_blank g) = last (last g)"
proof -
  assume g: "g \<noteq> []" and l: "last g \<noteq> []"
  show ?thesis
  proof (cases "butlast g = []")
    case True
    then have "g = [last g]" using g by (metis append_butlast_last_id append_Nil)
    then have "join_blank g = last g" by (metis join_blank_single)
    then show ?thesis by simp
  next
    case False
    have "join_blank (butlast g @ [last g]) = join_blank (butlast g) @ blank_line @ last g"
      using False by (rule join_blank_snoc)
    then have "join_blank g = join_blank (butlast g) @ blank_line @ last g"
      using g by simp
    then show ?thesis using l by simp
  qed
qed

lemma join_blank_trimmed:
  assumes "g \<noteq> []" and "\<forall>p \<in> set g. trimmed p"
  shows "trimmed (join_blank g)"
proof -
  have h: "trimmed (hd g)" and l: "trimmed (last g)" using assms by simp_all
  have "join_blank g \<noteq> [] \<and> hd (join_blank g) = hd (hd g)"
    using assms(1) h by (intro join_blank_hd) (simp_all add: trimmed_def)
  moreover have "last (join_blank g) = last (last g)"
    using assms(1) l by (intro join_blank_last) (simp_all add: trimmed_def)
  ultimately show ?thesis using h l by (simp add: trimmed_def)
qed

text \<open>The candidates of a text: each without whitespace at its ends, together the text.\<close>

lemma candidates_normal_form:
  assumes "\<forall>p \<in> set ps. trimmed p"
  shows "glue_all (map collapse_ws (aggregateParagraphsIntoChunks ps T)) = glue_all (map normal_form ps) \<and>
         (\<forall>c \<in> set (aggregateParagraphsIntoChunks ps T). trimmed c)"
proof -
  have "list_all (\<lambda>p. p \<noteq> []) ([] @ ps)"
    using assms by (auto simp: list_all_iff trimmed_def)
  then obtain groups where gr: "agg_rest T (join_blank []) ps = map join_blank groups"
    "concat groups = [] @ ps" "\<forall>x \<in> set groups. x \<noteq> []"
    using agg_rest_groups [of "[]" ps T] by blast
  have "join_blank [] = []" by (simp add: join_blank_def)
  then have a: "aggregateParagraphsIntoChunks ps T = map join_blank groups"
    using gr(1) by (simp add: aggregate_agg_rest)
  have inps: "\<forall>g \<in> set groups. \<forall>p \<in> set g. trimmed p"
    using assms gr(2) by auto
  have tr: "\<forall>c \<in> set (map join_blank groups). trimmed c"
    using gr(3) inps by (auto intro: join_blank_trimmed)
  then have "map collapse_ws (map join_blank groups) = map normal_form (map join_blank groups)"
    by (simp add: normal_form_trimmed)
  also have "\<dots> = map glue_all (map (map normal_form) groups)"
    by (simp add: join_blank_normal_form)
  finally have "glue_all (map collapse_ws (map join_blank groups)) =
                glue_all (map glue_all (map (map normal_form) groups))" by (rule arg_cong)
  also have "\<dots> = glue_all (concat (map (map normal_form) groups))" by (rule glue_all_concat)
  also have "\<dots> = glue_all (map normal_form ps)" using gr(2) by (simp add: map_concat [symmetric])
  finally show ?thesis using a tr by simp
qed

lemma collapse_ws_of_text:
  "\<exists>l r. collapse_ws s = l @ normal_form s @ r \<and> (\<forall>c \<in> set l. is_ws c) \<and> (\<forall>c \<in> set r. is_ws c)"
proof (cases "trim s = []")
  case True
  then have "\<forall>c \<in> set s. is_ws c" by (simp add: trim_empty_iff)
  then have w: "\<forall>c \<in> set (collapse_ws s). is_ws c" by (rule collapse_ws_all_ws)
  have n: "normal_form s = []" using True by (simp add: normal_form_def)
  show ?thesis
  proof (intro exI conjI)
    show "collapse_ws s = collapse_ws s @ normal_form s @ []" by (simp add: n)
    show "\<forall>c \<in> set (collapse_ws s). is_ws c" by (rule w)
    show "\<forall>c \<in> set ([] :: jsstring). is_ws c" by simp
  qed
next
  case False
  obtain l r where lr: "s = l @ trim s @ r" "\<forall>c \<in> set l. is_ws c" "\<forall>c \<in> set r. is_ws c"
    using trim_decomposition by blast
  have t: "trimmed (trim s)" using False by (rule trim_trimmed)
  have "collapse_ws (l @ (trim s @ r)) = collapse_ws l @ collapse_ws (trim s @ r)"
    using t by (intro collapse_ws_append_right) (simp add: trimmed_def)
  also have "collapse_ws (trim s @ r) = collapse_ws (trim s) @ collapse_ws r"
    using t by (intro collapse_ws_append_left) (simp add: trimmed_def)
  finally have "collapse_ws (l @ trim s @ r) = collapse_ws l @ normal_form s @ collapse_ws r"
    by (simp add: normal_form_def)
  then have e: "collapse_ws s = collapse_ws l @ normal_form s @ collapse_ws r"
    by (simp only: lr(1) [symmetric])
  show ?thesis
  proof (intro exI conjI)
    show "collapse_ws s = collapse_ws l @ normal_form s @ collapse_ws r" by (rule e)
    show "\<forall>c \<in> set (collapse_ws l). is_ws c" using lr(2) by (rule collapse_ws_all_ws)
    show "\<forall>c \<in> set (collapse_ws r). is_ws c" using lr(3) by (rule collapse_ws_all_ws)
  qed
qed

lemma list_all2_cover_collapse:
  "list_all2 (\<lambda>c ss. sep_cover c ss \<and> (\<forall>f \<in> set ss. trimmed f)) cs segss \<Longrightarrow>
   list_all2 sep_cover (map collapse_ws cs) (map (map collapse_ws) segss)"
  by (induction cs segss rule: list_all2_induct) (simp_all add: sep_cover_collapse)

text \<open>Segments that cover the candidates of a text cover the text, whitespace normalized.\<close>

lemma segments_cover_text:
  assumes "list_all2 (\<lambda>c ss. sep_cover c ss \<and> (\<forall>f \<in> set ss. trimmed f))
             (aggregateParagraphsIntoChunks (splitTextIntoParagraphs (trim raw)) T) segss"
  shows "sep_cover (collapse_ws raw) (map collapse_ws (concat segss))"
proof -
  let ?ps = "splitTextIntoParagraphs (trim raw)"
  let ?cs = "aggregateParagraphsIntoChunks ?ps T"
  have tp: "\<forall>p \<in> set ?ps. trimmed p"
    using splitTextIntoParagraphs_clean [of "trim raw"] by (simp add: clean_paragraph_def)
  have "glue_all (map collapse_ws ?cs) = glue_all (map normal_form ?ps)"
    using candidates_normal_form [OF tp] by simp
  also have "\<dots> = normal_form raw" by (simp add: splitTextIntoParagraphs_normal_form)
  finally have g: "glue_all (map collapse_ws ?cs) = normal_form raw" .
  have "sep_cover (glue_all (map collapse_ws ?cs)) (concat (map (map collapse_ws) segss))"
    using list_all2_cover_collapse [OF assms] by (rule sep_cover_glue_all)
  then have c: "sep_cover (normal_form raw) (map collapse_ws (concat segss))"
    by (simp add: g map_concat)
  obtain l r where lr: "collapse_ws raw = l @ normal_form raw @ r"
    "\<forall>c \<in> set l. is_ws c" "\<forall>c \<in> set r. is_ws c"
    using collapse_ws_of_text by blast
  have "sep_cover (normal_form raw @ r) (map collapse_ws (concat segss))"
    using c lr(3) by (rule sep_cover_ws_suffix)
  then have "sep_cover (l @ normal_form raw @ r) (map collapse_ws (concat segss))"
    using lr(2) sep_cover_ws_prefix by blast
  then show ?thesis by (simp only: lr(1))
qed

text \<open>Segments that cover the candidates cover the paragraphs joined by blank lines, exactly.\<close>

lemma join_blank_append:
  "a \<noteq> [] \<Longrightarrow> b \<noteq> [] \<Longrightarrow> join_blank (a @ b) = join_blank a @ blank_line @ join_blank b"
proof (induction a rule: induct_list012)
  case 1
  then show ?case by simp
next
  case (2 x)
  then obtain y r where "b = y # r" by (cases b) auto
  then show ?case by (simp add: join_blank_Cons2)
next
  case (3 x y r)
  have "join_blank ((x # y # r) @ b) = x @ blank_line @ join_blank ((y # r) @ b)"
    by (simp add: join_blank_Cons2)
  also have "join_blank ((y # r) @ b) = join_blank (y # r) @ blank_line @ join_blank b"
    using "3.IH"(2) "3.prems"(2) by simp
  finally show ?case by (simp add: join_blank_Cons2)
qed

lemma sep_cover_join_groups:
  "list_all2 sep_cover (map join_blank groups) segss \<Longrightarrow> \<forall>g \<in> set groups. g \<noteq> [] \<Longrightarrow>
   sep_cover (join_blank (concat groups)) (concat segss)"
proof (induction groups arbitrary: segss)
  case Nil
  then show ?case by (simp add: join_blank_def sep_cover_Nil_iff)
next
  case (Cons g gs)
  obtain ss segss' where s: "segss = ss # segss'" "sep_cover (join_blank g) ss"
    "list_all2 sep_cover (map join_blank gs) segss'"
    using Cons.prems(1) by (auto simp: list_all2_Cons1)
  have g: "g \<noteq> []" using Cons.prems(2) by simp
  have r: "sep_cover (join_blank (concat gs)) (concat segss')"
    using Cons.IH [OF s(3)] Cons.prems(2) by simp
  show ?case
  proof (cases "concat gs = []")
    case True
    have e: "join_blank (concat gs) = []" unfolding True by (simp add: join_blank_def)
    have cg: "concat (g # gs) = g" by (simp add: True)
    have "sep_cover (join_blank g @ join_blank (concat gs)) (ss @ concat segss')"
      using s(2) r by (rule sep_cover_append)
    then have "sep_cover (join_blank g) (ss @ concat segss')" by (simp add: e)
    then show ?thesis unfolding cg s(1) by simp
  next
    case False
    have "sep_cover (blank_line @ join_blank (concat gs)) (concat segss')"
      using blank_line_ws(1) r by (rule sep_cover_ws_prefix)
    then have "sep_cover (join_blank g @ blank_line @ join_blank (concat gs)) (ss @ concat segss')"
      using s(2) by (intro sep_cover_append)
    then show ?thesis using s(1) join_blank_append [OF g False] by simp
  qed
qed

lemma segments_cover_paragraphs:
  assumes "list_all2 (\<lambda>c ss. sep_cover c ss \<and> (\<forall>f \<in> set ss. trimmed f))
             (aggregateParagraphsIntoChunks ps T) segss"
    and "\<forall>p \<in> set ps. trimmed p"
  shows "sep_cover (join_blank ps) (concat segss)"
proof -
  have "list_all (\<lambda>p. p \<noteq> []) ([] @ ps)"
    using assms(2) by (auto simp: list_all_iff trimmed_def)
  then obtain groups where gr: "agg_rest T (join_blank []) ps = map join_blank groups"
    "concat groups = [] @ ps" "\<forall>x \<in> set groups. x \<noteq> []"
    using agg_rest_groups [of "[]" ps T] by blast
  have "join_blank [] = []" by (simp add: join_blank_def)
  then have a: "aggregateParagraphsIntoChunks ps T = map join_blank groups"
    using gr(1) by (simp add: aggregate_agg_rest)
  have "list_all2 sep_cover (map join_blank groups) segss"
    using list_all2_fst_conj [OF assms(1)] by (simp only: a)
  then have "sep_cover (join_blank (concat groups)) (concat segss)"
    using gr(3) by (rule sep_cover_join_groups)
  then show ?thesis using gr(2) by simp
qed

lemma paragraphs_cover_text: "sep_cover raw (splitTextIntoParagraphs (trim raw))"
proof -
  obtain l r where lr: "raw = l @ trim raw @ r" "\<forall>c \<in> set l. is_ws c" "\<forall>c \<in> set r. is_ws c"
    using trim_decomposition by blast
  have "sep_cover (trim raw @ r) (splitTextIntoParagraphs (trim raw))"
    using splitTextIntoParagraphs_sep_cover lr(3) by (rule sep_cover_ws_suffix)
  then have "sep_cover (l @ trim raw @ r) (splitTextIntoParagraphs (trim raw))"
    using lr(2) sep_cover_ws_prefix by blast
  then show ?thesis by (simp only: lr(1) [symmetric])
qed

section \<open>Coverage by the chunks\<close>

lemma count_failure_is_an_answer:
  assumes "countTokensForText ai vp t st = (Inl e, o')"
  shows "\<exists>k. ai k (fullTextToCount vp t) = Inl e"
proof (cases "ai (calls st) (fullTextToCount vp t)")
  case (Inr n)
  then show ?thesis using count_first_success [of ai st vp t n] assms by simp
next
  case e0: (Inl e0)
  show ?thesis
  proof (cases "isServerError e0")
    case False
    then have "e = e0" using count_permanent_failure [of ai st vp t e0] e0 assms by simp
    then show ?thesis using e0 by blast
  next
    case s0: True
    show ?thesis
    proof (cases "ai (calls st + 1) (fullTextToCount vp t)")
      case (Inr n)
      then show ?thesis using count_second_success [of ai st vp t e0 n] e0 s0 assms by simp
    next
      case e1: (Inl e1)
      show ?thesis
      proof (cases "isServerError e1")
        case False
        then have "e = e1"
          using count_second_permanent_failure [of ai st vp t e0 e1] e0 s0 e1 assms by simp
        then show ?thesis using e1 by blast
      next
        case s1: True
        show ?thesis
        proof (cases "ai (calls st + 2) (fullTextToCount vp t)")
          case (Inr n)
          then show ?thesis
            using count_fail_fail_success [of ai st vp t e0 e1 n] e0 s0 e1 s1 assms by simp
        next
          case e2: (Inl e2)
          then have "e = e2"
            using count_retries_exhausted [of ai st vp t e0 e1 e2] e0 s0 e1 s1 assms by simp
          then show ?thesis using e2 by blast
        qed
      qed
    qed
  qed
qed

lemma subsegment_segment:
  assumes "\<exists>c \<in> set sub. \<not> is_ws c"
  shows "\<exists>ch. finalAudiobookChunks (process_subsegment ai vp ttl base s sub) =
                finalAudiobookChunks s @ [ch] \<and> chunk_stands_for ai vp ch sub"
proof -
  have ne: "trim sub \<noteq> []" using assms by (rule nonblank_trim)
  obtain r o' where c: "countTokensForText ai vp sub (ost s) = (r, o')"
    by (cases "countTokensForText ai vp sub (ost s)")
  show ?thesis
  proof (cases r)
    case (Inl e)
    then have "\<exists>k e. ai k (fullTextToCount vp sub) = Inl e"
      using count_failure_is_an_answer [of ai vp sub "ost s" e o'] c by blast
    then show ?thesis
      using ne c Inl by (simp add: process_subsegment_def push_chunk_record chunk_stands_for_def)
  next
    case (Inr n)
    then show ?thesis
      using ne c by (simp add: process_subsegment_def push_chunk_record chunk_stands_for_def)
  qed
qed

lemma subsegments_segments:
  "\<forall>sub \<in> set subs. \<exists>c \<in> set sub. \<not> is_ws c \<Longrightarrow>
   \<exists>new. finalAudiobookChunks (foldl (process_subsegment ai vp ttl base) s subs) =
           finalAudiobookChunks s @ new \<and> list_all2 (chunk_stands_for ai vp) new subs"
proof (induction subs arbitrary: s)
  case Nil
  show ?case by simp
next
  case (Cons sub subs)
  let ?s1 = "process_subsegment ai vp ttl base s sub"
  obtain ch where ch: "finalAudiobookChunks ?s1 = finalAudiobookChunks s @ [ch]"
    and c1: "chunk_stands_for ai vp ch sub"
    using subsegment_segment [of sub ai vp ttl base s] Cons.prems by auto
  obtain n2 where n2: "finalAudiobookChunks (foldl (process_subsegment ai vp ttl base) ?s1 subs) =
                       finalAudiobookChunks ?s1 @ n2"
    and c2: "list_all2 (chunk_stands_for ai vp) n2 subs"
    using Cons.IH [of ?s1] Cons.prems by auto
  have "finalAudiobookChunks (foldl (process_subsegment ai vp ttl base) s (sub # subs)) =
        finalAudiobookChunks s @ (ch # n2)"
    using ch n2 by simp
  moreover have "list_all2 (chunk_stands_for ai vp) (ch # n2) (sub # subs)" using c1 c2 by simp
  ultimately show ?case by blast
qed

lemma candidate_segments:
  assumes "trimmed cand"
  shows "\<exists>s' new segs. process_candidate ai vp ttl base s cand = Some s' \<and>
           finalAudiobookChunks s' = finalAudiobookChunks s @ new \<and>
           list_all2 (chunk_stands_for ai vp) new segs \<and>
           sep_cover cand segs \<and> (\<forall>f \<in> set segs. trimmed f)"
proof -
  have self: "sep_cover cand [cand]"
    using assms by (intro sep_cover_self trimmed_nonblank)
  obtain r o' where c: "countTokensForText ai vp cand (ost s) = (r, o')"
    by (cases "countTokensForText ai vp cand (ost s)")
  show ?thesis
  proof (cases r)
    case (Inl e)
    let ?ch = "\<lparr>index = chunkIndex s, chunkText = error_snippet cand, chapterTitle = Some ttl,
                fileName = part_file_name base (chunkIndex s + 1) (asc ''_TOKEN_ERR''),
                status = Error, tokenCount = None,
                errorDetails = Some (asc ''Token counting failed for this candidate chunk: ''
                                     @ error_text e)\<rparr>"
    have "process_candidate ai vp ttl base s cand =
          Some \<lparr>finalAudiobookChunks = finalAudiobookChunks s @ [?ch],
                chunkIndex = chunkIndex s + 1, ost = o'\<rparr>"
      using c Inl by (simp add: process_candidate_def push_chunk_record)
    moreover have "\<exists>k e. ai k (fullTextToCount vp cand) = Inl e"
      using count_failure_is_an_answer [of ai vp cand "ost s" e o'] c Inl by blast
    then have "list_all2 (chunk_stands_for ai vp) [?ch] [cand]" by (simp add: chunk_stands_for_def)
    ultimately show ?thesis using self assms
      by (intro exI [of _ "\<lparr>finalAudiobookChunks = finalAudiobookChunks s @ [?ch],
                chunkIndex = chunkIndex s + 1, ost = o'\<rparr>"] exI [of _ "[?ch]"] exI [of _ "[cand]"]) simp
  next
    case (Inr n)
    show ?thesis
    proof (cases "n \<le> IDEAL_CHUNK_TOKEN_UPPER_BOUND")
      case True
      let ?ch = "\<lparr>index = chunkIndex s, chunkText = cand, chapterTitle = Some ttl,
                  fileName = part_file_name base (chunkIndex s + 1) [],
                  status = Pending, tokenCount = Some n, errorDetails = None\<rparr>"
      have "process_candidate ai vp ttl base s cand =
            Some \<lparr>finalAudiobookChunks = finalAudiobookChunks s @ [?ch],
                  chunkIndex = chunkIndex s + 1, ost = o'\<rparr>"
        using c Inr True by (simp add: process_candidate_def push_chunk_record)
      moreover have "list_all2 (chunk_stands_for ai vp) [?ch] [cand]" by (simp add: chunk_stands_for_def)
      ultimately show ?thesis using self assms
        by (intro exI [of _ "\<lparr>finalAudiobookChunks = finalAudiobookChunks s @ [?ch],
                  chunkIndex = chunkIndex s + 1, ost = o'\<rparr>"] exI [of _ "[?ch]"] exI [of _ "[cand]"]) simp
    next
      case False
      obtain subs where subs: "forceSplitTextRecursive_SYNC cand FINE_GRAINED_RECURSIVE_CHAR_TARGET 0 = Some subs"
        and cov: "sep_cover cand subs" and tr: "\<forall>f \<in> set subs. trimmed f \<or> f = cand"
        using forceSplit_cover [OF fine_target_positive, of cand 0] by blast
      let ?s' = "foldl (process_subsegment ai vp ttl base) (s\<lparr>ost := o'\<rparr>) subs"
      obtain new where new: "finalAudiobookChunks ?s' = finalAudiobookChunks (s\<lparr>ost := o'\<rparr>) @ new"
        and cn: "list_all2 (chunk_stands_for ai vp) new subs"
        using subsegments_segments [of subs ai vp ttl base "s\<lparr>ost := o'\<rparr>"] sep_cover_nonblank [OF cov]
        by blast
      have p: "process_candidate ai vp ttl base s cand = Some ?s'"
        using c Inr False subs by (simp add: process_candidate_def)
      have f: "finalAudiobookChunks ?s' = finalAudiobookChunks s @ new"
        using new by simp
      have t: "\<forall>f \<in> set subs. trimmed f" using tr assms by auto
      show ?thesis
        using p f cn cov t by (intro exI [of _ ?s'] exI [of _ new] exI [of _ subs]) simp
    qed
  qed
qed

lemma candidates_segments:
  "\<forall>c \<in> set cands. trimmed c \<Longrightarrow>
   \<exists>s' new segss. process_candidates ai vp ttl base s cands = Some s' \<and>
         finalAudiobookChunks s' = finalAudiobookChunks s @ new \<and>
         list_all2 (chunk_stands_for ai vp) new (concat segss) \<and>
         list_all2 (\<lambda>c ss. sep_cover c ss \<and> (\<forall>f \<in> set ss. trimmed f)) cands segss"
proof (induction cands arbitrary: s)
  case Nil
  show ?case by (intro exI [of _ s] exI [of _ "[]"]) simp
next
  case (Cons cand cands)
  obtain s1 n1 segs where s1: "process_candidate ai vp ttl base s cand = Some s1"
    and n1: "finalAudiobookChunks s1 = finalAudiobookChunks s @ n1"
    and c1: "list_all2 (chunk_stands_for ai vp) n1 segs"
    and v1: "sep_cover cand segs" "\<forall>f \<in> set segs. trimmed f"
    using candidate_segments [of cand ai vp ttl base s] Cons.prems by auto
  obtain s2 n2 segss where s2: "process_candidates ai vp ttl base s1 cands = Some s2"
    and n2: "finalAudiobookChunks s2 = finalAudiobookChunks s1 @ n2"
    and c2: "list_all2 (chunk_stands_for ai vp) n2 (concat segss)"
    and v2: "list_all2 (\<lambda>c ss. sep_cover c ss \<and> (\<forall>f \<in> set ss. trimmed f)) cands segss"
    using Cons.IH [of s1] Cons.prems by auto
  have "process_candidates ai vp ttl base s (cand # cands) = Some s2"
    using s1 s2 by simp
  moreover have "finalAudiobookChunks s2 = finalAudiobookChunks s @ (n1 @ n2)"
    using n1 n2 by simp
  moreover have "list_all2 (chunk_stands_for ai vp) (n1 @ n2) (concat (segs # segss))"
    using c1 c2 by (simp add: list_all2_appendI)
  moreover have "list_all2 (\<lambda>c ss. sep_cover c ss \<and> (\<forall>f \<in> set ss. trimmed f))
                   (cand # cands) (segs # segss)"
    using v1 v2 by simp
  ultimately show ?case by blast
qed

lemma carries_without_error:
  "list_all2 (chunk_stands_for ai vp) chunks segs \<Longrightarrow> no_error chunks \<Longrightarrow> map chunkText chunks = segs"
  by (induction chunks segs rule: list_all2_induct) (simp_all add: no_error_def chunk_stands_for_def)

lemma fragments_trimmed_concat:
  "list_all2 (\<lambda>c ss. sep_cover c ss \<and> (\<forall>f \<in> set ss. trimmed f)) cands segss \<Longrightarrow>
   \<forall>f \<in> set (concat segss). trimmed f"
  by (induction cands segss rule: list_all2_induct) auto

lemma createAudiobookChunks_segments:
  assumes it: "input_text_and_title input bfb = Some (raw, ttl)"
  shows "\<exists>chunks st segs.
           createAudiobookChunks translit input (Some client) bfb vp = Some (Inr chunks, st) \<and>
           list_all2 (chunk_stands_for client vp) chunks segs \<and> (\<forall>seg \<in> set segs. trimmed seg) \<and>
           covers_text raw segs \<and>
           sep_cover (join_blank (splitTextIntoParagraphs (trim raw))) segs"
proof (cases "trim raw = []")
  case True
  then have "\<forall>c \<in> set raw. is_ws c" by (simp add: trim_empty_iff)
  then have "covers_text raw []"
    by (simp add: covers_text_def sep_cover_Nil_iff collapse_ws_all_ws)
  moreover have "sep_cover (join_blank (splitTextIntoParagraphs (trim raw))) []"
    using True
    by (simp add: splitTextIntoParagraphs_def js_split_def para_match_def trim_def nonempty_def
          join_blank_def sep_cover_Nil_iff)
  moreover have "createAudiobookChunks translit input (Some client) bfb vp =
                 Some (Inr [], \<lparr>calls = 0, sleeps = []\<rparr>)"
    using True it by (simp add: createAudiobookChunks_def)
  ultimately show ?thesis
    by (intro exI [of _ "[]"] exI [of _ "\<lparr>calls = 0, sleeps = []\<rparr>"]) simp
next
  case False
  let ?cands = "aggregateParagraphsIntoChunks (splitTextIntoParagraphs (trim raw)) IDEAL_CHARS_PER_CHUNK_TARGET"
  let ?s0 = "\<lparr>finalAudiobookChunks = [], chunkIndex = 0, ost = \<lparr>calls = 0, sleeps = []\<rparr>\<rparr>"
  have cne: "?cands \<noteq> []" using False by (rule candidates_nonempty)
  have tp: "\<forall>p \<in> set (splitTextIntoParagraphs (trim raw)). trimmed p"
    using splitTextIntoParagraphs_clean [of "trim raw"] by (simp add: clean_paragraph_def)
  have tc: "\<forall>c \<in> set ?cands. trimmed c"
    using candidates_normal_form [OF tp] by simp
  obtain s' new segss where s': "process_candidates client vp ttl (sanitizedFileNameBase translit ttl) ?s0 ?cands = Some s'"
    and new: "finalAudiobookChunks s' = finalAudiobookChunks ?s0 @ new"
    and car: "list_all2 (chunk_stands_for client vp) new (concat segss)"
    and cov: "list_all2 (\<lambda>c ss. sep_cover c ss \<and> (\<forall>f \<in> set ss. trimmed f)) ?cands segss"
    using candidates_segments [OF tc] by blast
  have run: "createAudiobookChunks translit input (Some client) bfb vp = Some (Inr new, ost s')"
    using it False cne s' new by (simp add: createAudiobookChunks_def Let_def)
  have "covers_text raw (concat segss)"
    unfolding covers_text_def using cov by (rule segments_cover_text)
  moreover have "\<forall>f \<in> set (concat segss). trimmed f"
    using cov by (rule fragments_trimmed_concat)
  moreover have "sep_cover (join_blank (splitTextIntoParagraphs (trim raw))) (concat segss)"
    using cov tp by (rule segments_cover_paragraphs)
  ultimately show ?thesis
    using run car by (intro exI [of _ new] exI [of _ "ost s'"] exI [of _ "concat segss"]) simp
qed

lemma further_chapters_not_read:
  "createAudiobookChunks translit (Chapters (ch # chs)) ai bfb vp =
   createAudiobookChunks translit (Chapters [ch]) ai bfb vp"
proof -
  have "input_text_and_title (Chapters (ch # chs)) bfb = input_text_and_title (Chapters [ch]) bfb"
    by (simp add: input_text_and_title_def)
  then show ?thesis by (simp only: createAudiobookChunks_def)
qed

text \<open>With an oracle that answers every request, no chunk is in error status.\<close>

lemma count_of_answering_oracle:
  "\<forall>k t. \<exists>n. ai k t = Inr n \<Longrightarrow> \<exists>n o'. countTokensForText ai vp t st = (Inr n, o')"
proof -
  assume "\<forall>k t. \<exists>n. ai k t = Inr n"
  then obtain n where "ai (calls st) (fullTextToCount vp t) = Inr n" by blast
  then show ?thesis using count_first_success by blast
qed

lemma subsegment_no_error:
  assumes "\<forall>k t. \<exists>n. ai k t = Inr n" and "no_error (finalAudiobookChunks s)"
  shows "no_error (finalAudiobookChunks (process_subsegment ai vp ttl base s sub))"
proof (cases "trim sub = []")
  case True
  then show ?thesis using assms(2) by (simp add: process_subsegment_def)
next
  case False
  obtain n o' where c: "countTokensForText ai vp sub (ost s) = (Inr n, o')"
    using count_of_answering_oracle [OF assms(1)] by blast
  show ?thesis
    using False c assms(2) by (simp add: process_subsegment_def push_chunk_record no_error_def)
qed

lemma subsegments_no_error:
  "\<forall>k t. \<exists>n. ai k t = Inr n \<Longrightarrow> no_error (finalAudiobookChunks s) \<Longrightarrow>
   no_error (finalAudiobookChunks (foldl (process_subsegment ai vp ttl base) s subs))"
proof (induction subs arbitrary: s)
  case Nil
  then show ?case by simp
next
  case (Cons sub subs)
  have "no_error (finalAudiobookChunks (process_subsegment ai vp ttl base s sub))"
    using Cons.prems by (rule subsegment_no_error)
  then show ?case using Cons.IH [OF Cons.prems(1)] by simp
qed

lemma candidate_no_error:
  assumes "\<forall>k t. \<exists>n. ai k t = Inr n" and "no_error (finalAudiobookChunks s)"
    and "process_candidate ai vp ttl base s cand = Some s'"
  shows "no_error (finalAudiobookChunks s')"
proof -
  obtain n o' where c: "countTokensForText ai vp cand (ost s) = (Inr n, o')"
    using count_of_answering_oracle [OF assms(1)] by blast
  show ?thesis
  proof (cases "n \<le> IDEAL_CHUNK_TOKEN_UPPER_BOUND")
    case True
    then show ?thesis
      using c assms(2,3) by (auto simp: process_candidate_def push_chunk_record no_error_def)
  next
    case False
    obtain subs where subs: "forceSplitTextRecursive_SYNC cand FINE_GRAINED_RECURSIVE_CHAR_TARGET 0 = Some subs"
      using forceSplit_cover [OF fine_target_positive, of cand 0] by blast
    have "s' = foldl (process_subsegment ai vp ttl base) (s\<lparr>ost := o'\<rparr>) subs"
      using c False subs assms(3) by (simp add: process_candidate_def)
    moreover have "no_error (finalAudiobookChunks (s\<lparr>ost := o'\<rparr>))" using assms(2) by simp
    ultimately show ?thesis using subsegments_no_error [OF assms(1)] by simp
  qed
qed

lemma candidates_no_error:
  "\<forall>k t. \<exists>n. ai k t = Inr n \<Longrightarrow> no_error (finalAudiobookChunks s) \<Longrightarrow>
   process_candidates ai vp ttl base s cands = Some s' \<Longrightarrow> no_error (finalAudiobookChunks s')"
proof (induction cands arbitrary: s)
  case Nil
  then show ?case by simp
next
  case (Cons cand cands)
  obtain s1 where s1: "process_candidate ai vp ttl base s cand = Some s1"
    and rest: "process_candidates ai vp ttl base s1 cands = Some s'"
    using Cons.prems(3) by (auto split: option.splits)
  have "no_error (finalAudiobookChunks s1)"
    using Cons.prems(1,2) s1 by (rule candidate_no_error)
  then show ?case using Cons.IH [OF Cons.prems(1) _ rest] by simp
qed

lemma createAudiobookChunks_no_error:
  assumes "\<forall>k t. \<exists>n. client k t = Inr n"
    and run: "createAudiobookChunks translit input (Some client) bfb vp = Some (Inr chunks, st)"
  shows "no_error chunks"
proof (cases "input_text_and_title input bfb")
  case None
  then show ?thesis using run by (simp add: createAudiobookChunks_def no_error_def)
next
  case (Some p)
  obtain raw ttl where p: "p = (raw, ttl)" by (cases p)
  show ?thesis
  proof (cases "trim raw = []")
    case True
    then show ?thesis using run Some p by (simp add: createAudiobookChunks_def no_error_def)
  next
    case False
    let ?cands = "aggregateParagraphsIntoChunks (splitTextIntoParagraphs (trim raw)) IDEAL_CHARS_PER_CHUNK_TARGET"
    let ?s0 = "\<lparr>finalAudiobookChunks = [], chunkIndex = 0, ost = \<lparr>calls = 0, sleeps = []\<rparr>\<rparr>"
    have cne: "?cands \<noteq> []" using False by (rule candidates_nonempty)
    obtain s' where s': "process_candidates client vp ttl (sanitizedFileNameBase translit ttl) ?s0 ?cands = Some s'"
      and ch: "chunks = finalAudiobookChunks s'"
      using run Some p False cne
      by (auto simp: createAudiobookChunks_def Let_def split: option.splits)
    have "no_error (finalAudiobookChunks ?s0)" by (simp add: no_error_def)
    then have "no_error (finalAudiobookChunks s')"
      using candidates_no_error [OF assms(1) _ s'] by blast
    then show ?thesis using ch by simp
  qed
qed

text \<open>
  C1 (coverage), as claimed, fails when a token count fails: the chunk in error status does
  not carry the text of its candidate but a message, \<open>Error: Token counting failed.
  Snippet: \<close> followed by the first 100 code units of the candidate and \<open>...\<close>. For the
  input \<open>a\<close> and an oracle that refuses, the only chunk has the text
  \<open>Error: Token counting failed. Snippet: a...\<close>, which is not \<open>a\<close> under any treatment
  of whitespace.
\<close>

theorem coverage_counterexample:
  "createAudiobookChunks no_transliteration (Strings [[97]]) (Some denying_oracle) [66] [] =
     Some (Inr [\<lparr>index = 0,
                 chunkText = asc ''Error: Token counting failed. Snippet: a...'',
                 chapterTitle = Some [66],
                 fileName = asc ''B_Part_001_TOKEN_ERR.wav'',
                 status = Error, tokenCount = None,
                 errorDetails = Some (asc ''Token counting failed for this candidate chunk: denied'')\<rparr>],
           \<lparr>calls = 1, sleeps = []\<rparr>) \<and>
   input_text_and_title (Strings [[97]]) [66] = Some ([97], [66]) \<and>
   \<not> covers [\<lparr>index = 0,
                 chunkText = asc ''Error: Token counting failed. Snippet: a...'',
                 chapterTitle = Some [66],
                 fileName = asc ''B_Part_001_TOKEN_ERR.wav'',
                 status = Error, tokenCount = None,
                 errorDetails = Some (asc ''Token counting failed for this candidate chunk: denied'')\<rparr>]
               [97]"
proof -
  have "strip_ws (asc ''Error: Token counting failed. Snippet: a...'') \<noteq> strip_ws [97]"
    by (simp add: asc_def strip_ws_Cons is_ws_def)
  then show ?thesis
    using denying_oracle_run input_a by (simp add: covers_def)
qed

text \<open>
  C1, amended. The text read from the input is the strings joined by blank lines or, for
  chapters, the content of the first chapter: the chapters after the first are not read.
  For every input, every oracle and every voice prompt, \<open>createAudiobookChunks\<close> returns a
  list of chunks, and the chunks stand, one for one and in index order, for segments of the
  text read, none with whitespace at its ends, that cover this text: once each run of
  whitespace is replaced by one space, the text is the segments, in order, separated by
  whitespace only, so that nothing is dropped, duplicated or moved, and the whitespace
  inside a segment is kept. The segments are, exactly, pieces of the paragraphs of the
  text joined by blank lines, and the paragraphs pieces of the text. A chunk that is not
  in error status has its segment as text, also when it is flagged oversized; a chunk in
  error status has, instead of its segment, the error message made from the first 100
  code units of the segment, and the oracle has refused a count of that segment. When no
  chunk is in error status, which is the case when the oracle answers every request, the
  texts of the chunks are the segments, and their concatenation equals the text once
  whitespace is removed from both.
\<close>

theorem coverage_up_to_error_chunks:
  "(input_text_and_title input bfb = Some (raw, ttl) \<longrightarrow>
      (\<exists>chunks st segs.
         createAudiobookChunks translit input (Some client) bfb vp = Some (Inr chunks, st) \<and>
         list_all2 (chunk_stands_for client vp) chunks segs \<and> (\<forall>seg \<in> set segs. trimmed seg) \<and>
         covers_text raw segs \<and>
         sep_cover raw (splitTextIntoParagraphs (trim raw)) \<and>
         sep_cover (join_blank (splitTextIntoParagraphs (trim raw))) segs \<and>
         (no_error chunks \<longrightarrow> map chunkText chunks = segs \<and> covers chunks raw) \<and>
         ((\<forall>k t. \<exists>n. client k t = Inr n) \<longrightarrow> no_error chunks))) \<and>
   input_text_and_title (Strings (x # xs)) bfb2 = Some (join_blank (x # xs), or_else bfb2 (asc ''PastedText'')) \<and>
   map_option fst (input_text_and_title (Chapters (ch # chs)) bfb2) = Some (content ch) \<and>
   createAudiobookChunks translit (Chapters (ch # chs)) ai bfb2 vp2 =
     createAudiobookChunks translit (Chapters [ch]) ai bfb2 vp2"
proof (intro conjI impI)
  assume it: "input_text_and_title input bfb = Some (raw, ttl)"
  obtain chunks st segs where
    run: "createAudiobookChunks translit input (Some client) bfb vp = Some (Inr chunks, st)"
    and car: "list_all2 (chunk_stands_for client vp) chunks segs" and tr: "\<forall>seg \<in> set segs. trimmed seg"
    and cov: "covers_text raw segs"
    and ex: "sep_cover (join_blank (splitTextIntoParagraphs (trim raw))) segs"
    using createAudiobookChunks_segments [OF it] by blast
  have "no_error chunks \<longrightarrow> map chunkText chunks = segs \<and> covers chunks raw"
    using carries_without_error [OF car] createAudiobookChunks_covers [OF run it] by blast
  moreover have "(\<forall>k t. \<exists>n. client k t = Inr n) \<longrightarrow> no_error chunks"
    using createAudiobookChunks_no_error [OF _ run] by blast
  ultimately show "\<exists>chunks st segs.
         createAudiobookChunks translit input (Some client) bfb vp = Some (Inr chunks, st) \<and>
         list_all2 (chunk_stands_for client vp) chunks segs \<and> (\<forall>seg \<in> set segs. trimmed seg) \<and>
         covers_text raw segs \<and>
         sep_cover raw (splitTextIntoParagraphs (trim raw)) \<and>
         sep_cover (join_blank (splitTextIntoParagraphs (trim raw))) segs \<and>
         (no_error chunks \<longrightarrow> map chunkText chunks = segs \<and> covers chunks raw) \<and>
         ((\<forall>k t. \<exists>n. client k t = Inr n) \<longrightarrow> no_error chunks)"
    using run car tr cov ex paragraphs_cover_text [of raw] by blast
next
  show "input_text_and_title (Strings (x # xs)) bfb2 =
          Some (join_blank (x # xs), or_else bfb2 (asc ''PastedText''))"
    by (simp add: input_text_and_title_def)
  show "map_option fst (input_text_and_title (Chapters (ch # chs)) bfb2) = Some (content ch)"
    by (simp add: input_text_and_title_def)
  show "createAudiobookChunks translit (Chapters (ch # chs)) ai bfb2 vp2 =
          createAudiobookChunks translit (Chapters [ch]) ai bfb2 vp2"
    by (rule further_chapters_not_read)
qed

theorem coverage_up_to_error_chunks_witness:
  "(\<exists>segs. list_all2 (chunk_stands_for denying_oracle [])
             [\<lparr>index = 0,
               chunkText = asc ''Error: Token counting failed. Snippet: a...'',
               chapterTitle = Some [66],
               fileName = asc ''B_Part_001_TOKEN_ERR.wav'',
               status = Error, tokenCount = None,
               errorDetails = Some (asc ''Token counting failed for this candidate chunk: denied'')\<rparr>]
             segs \<and>
           (\<forall>seg \<in> set segs. trimmed seg) \<and> covers_text [97] segs) \<and>
   covers_text [97] [[97]] \<and>
   covers [\<lparr>index = 0, chunkText = [97], chapterTitle = Some [66],
             fileName = asc ''B_Part_001.wav'',
             status = Pending, tokenCount = Some 5000, errorDetails = None\<rparr>] [97]"
proof -
  obtain chunks st segs where
    run: "createAudiobookChunks no_transliteration (Strings [[97]]) (Some denying_oracle) [66] [] =
            Some (Inr chunks, st)"
    and car: "list_all2 (chunk_stands_for denying_oracle []) chunks segs" "\<forall>seg \<in> set segs. trimmed seg"
      "covers_text [97] segs"
    using coverage_up_to_error_chunks
            [of "Strings [[97]]" "[66]" "[97]" "[66]" no_transliteration denying_oracle "[]"]
          input_a
    by blast
  have c: "chunks = [\<lparr>index = 0,
               chunkText = asc ''Error: Token counting failed. Snippet: a...'',
               chapterTitle = Some [66],
               fileName = asc ''B_Part_001_TOKEN_ERR.wav'',
               status = Error, tokenCount = None,
               errorDetails = Some (asc ''Token counting failed for this candidate chunk: denied'')\<rparr>]"
    using run denying_oracle_run by simp
  have first: "\<exists>segs. list_all2 (chunk_stands_for denying_oracle [])
             [\<lparr>index = 0,
               chunkText = asc ''Error: Token counting failed. Snippet: a...'',
               chapterTitle = Some [66],
               fileName = asc ''B_Part_001_TOKEN_ERR.wav'',
               status = Error, tokenCount = None,
               errorDetails = Some (asc ''Token counting failed for this candidate chunk: denied'')\<rparr>]
             segs \<and>
           (\<forall>seg \<in> set segs. trimmed seg) \<and> covers_text [97] segs"
    using car unfolding c by blast
  obtain chunks2 st2 segs2 where
    run2: "createAudiobookChunks no_transliteration (Strings [[97]]) (Some big_oracle) [66] [] =
            Some (Inr chunks2, st2)"
    and cov2: "covers_text [97] segs2"
    and ok2: "no_error chunks2 \<longrightarrow> map chunkText chunks2 = segs2 \<and> covers chunks2 [97]"
    using coverage_up_to_error_chunks
            [of "Strings [[97]]" "[66]" "[97]" "[66]" no_transliteration big_oracle "[]"]
          input_a
    by blast
  have c2: "chunks2 = [\<lparr>index = 0, chunkText = [97], chapterTitle = Some [66],
               fileName = asc ''B_Part_001.wav'',
               status = Pending, tokenCount = Some 5000, errorDetails = None\<rparr>]"
    using run2 big_oracle_run by simp
  have "no_error chunks2" by (simp add: c2 no_error_def)
  then have "covers_text [97] [[97]] \<and>
     covers [\<lparr>index = 0, chunkText = [97], chapterTitle = Some [66],
             fileName = asc ''B_Part_001.wav'',
             status = Pending, tokenCount = Some 5000, errorDetails = None\<rparr>] [97]"
    using ok2 cov2 c2 by auto
  then show ?thesis using first by blast
qed

end
